theory Spec2Isabelle
  imports Complex_Main "HOL-Library.Log_Nat"
begin

section \<open>Double-precision values\<close>

text \<open>
  \<^verbatim>\<open>random_walk\<close> computes with C++ \<^verbatim>\<open>double\<close>s, taken here as IEEE 754 binary64
  values with every operation rounded on its own to the nearest double, a tie going to the
  even mantissa (the default rounding; no fused multiply-add, no wider intermediate format).
  A finite double is kept as an integer mantissa and a binary exponent, \<open>Fin m e\<close> standing
  for \<open>m * 2 ^ e\<close>; the format allows mantissas below \<open>2 ^ 53\<close> in magnitude and exponents
  from \<open>-1074\<close> to \<open>971\<close>, and a mantissa below \<open>2 ^ 52\<close> only at the least exponent (the
  subnormal numbers and zero). The two zeros of the format compare equal and
  \<^verbatim>\<open>random_walk\<close> never divides, so they are one value here.
\<close>

datatype double = Fin int int | PInf | NInf | NaN

definition is_double :: "double \<Rightarrow> bool" where
  "is_double d =
     (case d of
        Fin m e \<Rightarrow> \<bar>m\<bar> < 2 ^ 53 \<and> - 1074 \<le> e \<and> e \<le> 971 \<and> (\<bar>m\<bar> < 2 ^ 52 \<longrightarrow> e = - 1074)
      | _ \<Rightarrow> True)"

text \<open>\<open>rne_shift m k\<close> is \<open>m / 2 ^ k\<close> rounded to the nearest integer, a tie going to the even one.\<close>

definition rne_shift :: "int \<Rightarrow> nat \<Rightarrow> int" where
  "rne_shift m k =
     (let q = m div 2 ^ k; r = 2 * (m mod 2 ^ k)
      in if r < 2 ^ k then q else if 2 ^ k < r then q + 1 else if even q then q else q + 1)"

text \<open>
  \<open>pack m e\<close> stores a rounded magnitude: a mantissa that rounding carried up to \<open>2 ^ 53\<close>
  moves to the next exponent, and a magnitude beyond the largest exponent is infinite.
\<close>

definition pack :: "int \<Rightarrow> int \<Rightarrow> double" where
  "pack m e =
     (let m' = (if m = 2 ^ 53 then 2 ^ 52 else m);
          e' = (if m = 2 ^ 53 then e + 1 else e)
      in if 971 < e' then PInf else Fin m' e')"

text \<open>\<open>fl_mag m e\<close> is the double nearest to the exact magnitude \<open>m * 2 ^ e\<close>, for \<open>0 < m\<close>.\<close>

definition fl_mag :: "int \<Rightarrow> int \<Rightarrow> double" where
  "fl_mag m e =
     (let e' = max (e + bitlen m - 53) (- 1074);
          m' = (if e' \<le> e then m * 2 ^ nat (e - e') else rne_shift m (nat (e' - e)))
      in pack m' e')"

fun dneg :: "double \<Rightarrow> double" where
  "dneg (Fin m e) = Fin (- m) e"
| "dneg PInf = NInf"
| "dneg NInf = PInf"
| "dneg NaN = NaN"

text \<open>\<open>fl m e\<close> is the double nearest to the exact value \<open>m * 2 ^ e\<close>.\<close>

definition fl :: "int \<Rightarrow> int \<Rightarrow> double" where
  "fl m e =
     (if m = 0 then Fin 0 (- 1074)
      else if m < 0 then dneg (fl_mag (- m) e)
      else fl_mag m e)"

fun dadd :: "double \<Rightarrow> double \<Rightarrow> double" where
  "dadd (Fin m1 e1) (Fin m2 e2) =
     (let e = min e1 e2 in fl (m1 * 2 ^ nat (e1 - e) + m2 * 2 ^ nat (e2 - e)) e)"
| "dadd NaN y = NaN"
| "dadd x NaN = NaN"
| "dadd PInf NInf = NaN"
| "dadd NInf PInf = NaN"
| "dadd PInf y = PInf"
| "dadd NInf y = NInf"
| "dadd x PInf = PInf"
| "dadd x NInf = NInf"

definition dsub :: "double \<Rightarrow> double \<Rightarrow> double" where
  "dsub x y = dadd x (dneg y)"

fun dmul :: "double \<Rightarrow> double \<Rightarrow> double" where
  "dmul (Fin m1 e1) (Fin m2 e2) = fl (m1 * m2) (e1 + e2)"
| "dmul NaN y = NaN"
| "dmul x NaN = NaN"
| "dmul (Fin m e) y = (if m = 0 then NaN else if m < 0 then dneg y else y)"
| "dmul x (Fin m e) = (if m = 0 then NaN else if m < 0 then dneg x else x)"
| "dmul PInf y = y"
| "dmul NInf y = dneg y"

fun isqrt_search :: "int \<Rightarrow> nat \<Rightarrow> int \<Rightarrow> int" where
  "isqrt_search n 0 r = r"
| "isqrt_search n (Suc k) r =
     isqrt_search n k (if (r + 2 ^ k) * (r + 2 ^ k) \<le> n then r + 2 ^ k else r)"

definition isqrt :: "int \<Rightarrow> int" where
  "isqrt n = isqrt_search n (nat (bitlen n)) 0"

text \<open>
  The square root, rounded as IEEE 754 asks: the mantissa is scaled by \<open>2 ^ 110\<close> or
  \<open>2 ^ 111\<close> to an even exponent, so that its integer root \<open>s\<close> is at least \<open>2 ^ 55\<close>, and a
  root that is not an integer lies strictly between \<open>s\<close> and \<open>s + 1\<close>, where it rounds as
  \<open>s + 1/2\<close> does.
\<close>

fun dsqrt :: "double \<Rightarrow> double" where
  "dsqrt (Fin m e) =
     (if m < 0 then NaN
      else if m = 0 then Fin 0 (- 1074)
      else let k = (if even e then 110 else 111);
               n = m * 2 ^ k;
               s = isqrt n;
               h = (e - int k) div 2
           in if s * s = n then fl s h else fl (2 * s + 1) (h - 1))"
| "dsqrt PInf = PInf"
| "dsqrt NInf = NaN"
| "dsqrt NaN = NaN"

fun dlt :: "double \<Rightarrow> double \<Rightarrow> bool" where
  "dlt (Fin m1 e1) (Fin m2 e2) =
     (let e = min e1 e2 in m1 * 2 ^ nat (e1 - e) < m2 * 2 ^ nat (e2 - e))"
| "dlt NaN y = False"
| "dlt x NaN = False"
| "dlt x NInf = False"
| "dlt NInf y = True"
| "dlt PInf y = False"
| "dlt x PInf = True"

fun deq :: "double \<Rightarrow> double \<Rightarrow> bool" where
  "deq (Fin m1 e1) (Fin m2 e2) =
     (let e = min e1 e2 in m1 * 2 ^ nat (e1 - e) = m2 * 2 ^ nat (e2 - e))"
| "deq PInf PInf = True"
| "deq NInf NInf = True"
| "deq x y = False"

definition dle :: "double \<Rightarrow> double \<Rightarrow> bool" where
  "dle x y = (x \<noteq> NaN \<and> y \<noteq> NaN \<and> \<not> dlt y x)"

text \<open>The conversion of an \<^verbatim>\<open>int\<close> and the literals \<^verbatim>\<open>0\<close>, \<^verbatim>\<open>1\<close> and \<^verbatim>\<open>0.5\<close>.\<close>

definition d_of_int :: "int \<Rightarrow> double" where
  "d_of_int i = fl i 0"

definition d_zero :: double where
  "d_zero = Fin 0 (- 1074)"

definition d_one :: double where
  "d_one = Fin (2 ^ 52) (- 52)"

definition d_half :: double where
  "d_half = Fin (2 ^ 52) (- 53)"

section \<open>The trajectory simulator\<close>

text \<open>
  The state of the loop of \<^verbatim>\<open>random_walk\<close>: the position \<^verbatim>\<open>x\<close>, the step counter
  \<^verbatim>\<open>tic\<close>, and the number of values taken so far from the random source.
  \<^verbatim>\<open>R::runif(0, 1)\<close> reads a generator that belongs to the process; here the source is a
  sequence \<open>runif\<close> of doubles given by the caller, the \<open>i\<close>-th call returning \<open>runif i\<close>.
\<close>

record walk_state =
  w_x :: double
  w_tic :: int
  w_drawn :: nat

record outcome =
  choice :: int
  time :: double

text \<open>
  \<^verbatim>\<open>tic\<close> is an \<^verbatim>\<open>int\<close>; \<^verbatim>\<open>tic++\<close> at \<^verbatim>\<open>INT_MAX\<close> is undefined in C++, and a run
  that gets there has no result: it ends in \<open>SignedOverflow\<close>.
\<close>

datatype error = SignedOverflow

definition INT_MAX :: int where
  "INT_MAX = 2147483647"

text \<open>One pass through the body of the \<^verbatim>\<open>do\<close> loop.\<close>

definition loop_body :: "double \<Rightarrow> double \<Rightarrow> (nat \<Rightarrow> double) \<Rightarrow> walk_state \<Rightarrow> error + walk_state" where
  "loop_body delta p runif s =
     (let r = runif (w_drawn s);
          x' = (if dlt r p then dadd (w_x s) delta else dsub (w_x s) delta)
      in if w_tic s < INT_MAX
         then Inr \<lparr>w_x = x', w_tic = w_tic s + 1, w_drawn = Suc (w_drawn s)\<rparr>
         else Inl SignedOverflow)"

text \<open>The test \<^verbatim>\<open>(x < a) & (x > 0)\<close> that sends the loop round again.\<close>

definition loop_cond :: "double \<Rightarrow> walk_state \<Rightarrow> bool" where
  "loop_cond a s = (dlt (w_x s) a \<and> dlt d_zero (w_x s))"

text \<open>
  The \<^verbatim>\<open>do\<close> loop: the body first, then the test. Every pass adds one to \<^verbatim>\<open>tic\<close> and
  the pass at \<^verbatim>\<open>INT_MAX\<close> ends the run, so the recursion is well-founded.
\<close>

function walk_loop ::
  "double \<Rightarrow> double \<Rightarrow> double \<Rightarrow> (nat \<Rightarrow> double) \<Rightarrow> walk_state \<Rightarrow> error + walk_state" where
  "walk_loop a delta p runif s =
     (case loop_body delta p runif s of
        Inl err \<Rightarrow> Inl err
      | Inr s' \<Rightarrow> if loop_cond a s' then walk_loop a delta p runif s' else Inr s')"
  by pat_completeness auto
termination
  by (relation "measure (\<lambda>(a, delta, p, runif, s). nat (INT_MAX - w_tic s))")
    (auto simp: loop_body_def Let_def split: if_splits)

text \<open>The states the loop goes through, one after each pass, the last one first to fail the test.\<close>

function walk_trace ::
  "double \<Rightarrow> double \<Rightarrow> double \<Rightarrow> (nat \<Rightarrow> double) \<Rightarrow> walk_state \<Rightarrow> walk_state list" where
  "walk_trace a delta p runif s =
     (case loop_body delta p runif s of
        Inl err \<Rightarrow> []
      | Inr s' \<Rightarrow> s' # (if loop_cond a s' then walk_trace a delta p runif s' else []))"
  by pat_completeness auto
termination
  by (relation "measure (\<lambda>(a, delta, p, runif, s). nat (INT_MAX - w_tic s))")
    (auto simp: loop_body_def Let_def split: if_splits)

text \<open>The classification of the last position and the value returned.\<close>

definition report :: "double \<Rightarrow> double \<Rightarrow> walk_state \<Rightarrow> outcome" where
  "report a t_eps s =
     \<lparr>choice = (if dlt a (w_x s) then 1 else 0), time = dmul (d_of_int (w_tic s)) t_eps\<rparr>"

definition random_walk ::
  "double \<Rightarrow> double \<Rightarrow> double \<Rightarrow> double \<Rightarrow> (nat \<Rightarrow> double) \<Rightarrow> error + outcome" where
  "random_walk b a v t_eps runif =
     (let delta = dsqrt t_eps;
          p = dmul d_half (dadd d_one (dmul v delta));
          x = dmul a b;
          tic = 0
      in case walk_loop a delta p runif \<lparr>w_x = x, w_tic = tic, w_drawn = 0\<rparr> of
           Inl err \<Rightarrow> Inl err
         | Inr s \<Rightarrow> Inr (report a t_eps s))"

text \<open>
  The loop as \<^verbatim>\<open>random_walk\<close> starts it: its last state, and the states it goes through.
\<close>

definition final_state ::
  "double \<Rightarrow> double \<Rightarrow> double \<Rightarrow> double \<Rightarrow> (nat \<Rightarrow> double) \<Rightarrow> error + walk_state" where
  "final_state b a v t_eps runif =
     walk_loop a (dsqrt t_eps) (dmul d_half (dadd d_one (dmul v (dsqrt t_eps)))) runif
       \<lparr>w_x = dmul a b, w_tic = 0, w_drawn = 0\<rparr>"

definition trajectory ::
  "double \<Rightarrow> double \<Rightarrow> double \<Rightarrow> double \<Rightarrow> (nat \<Rightarrow> double) \<Rightarrow> walk_state list" where
  "trajectory b a v t_eps runif =
     walk_trace a (dsqrt t_eps) (dmul d_half (dadd d_one (dmul v (dsqrt t_eps)))) runif
       \<lparr>w_x = dmul a b, w_tic = 0, w_drawn = 0\<rparr>"

text \<open>
  A compiled program does not stop at the overflow: where \<^verbatim>\<open>int\<close> has 32 bits and the
  increment wraps round, \<^verbatim>\<open>tic++\<close> at \<^verbatim>\<open>INT_MAX\<close> gives \<open>-2 ^ 31\<close> and the loop goes
  on. \<open>wrap32\<close> is that wrap-around, \<open>loop_body_wrap\<close> the body of the loop with it, and
  \<open>walk_loop_wrap\<close> the loop. Nothing bounds its passes, so it is a partial function, \<open>None\<close>
  standing for a run that never ends. \<open>w_drawn\<close>, one more after every pass, counts the
  passes when \<open>w_tic\<close> no longer does.
\<close>

definition wrap32 :: "int \<Rightarrow> int" where
  "wrap32 n = (n + 2147483648) mod 4294967296 - 2147483648"

definition loop_body_wrap :: "double \<Rightarrow> double \<Rightarrow> (nat \<Rightarrow> double) \<Rightarrow> walk_state \<Rightarrow> walk_state" where
  "loop_body_wrap delta p runif s =
     (let r = runif (w_drawn s);
          x' = (if dlt r p then dadd (w_x s) delta else dsub (w_x s) delta)
      in \<lparr>w_x = x', w_tic = wrap32 (w_tic s + 1), w_drawn = Suc (w_drawn s)\<rparr>)"

partial_function (option) walk_loop_wrap ::
  "double \<Rightarrow> double \<Rightarrow> double \<Rightarrow> (nat \<Rightarrow> double) \<Rightarrow> walk_state \<Rightarrow> walk_state option" where
  [code]: "walk_loop_wrap a delta p runif s =
     (let s' = loop_body_wrap delta p runif s
      in if loop_cond a s' then walk_loop_wrap a delta p runif s' else Some s')"

definition random_walk_wrap ::
  "double \<Rightarrow> double \<Rightarrow> double \<Rightarrow> double \<Rightarrow> (nat \<Rightarrow> double) \<Rightarrow> outcome option" where
  "random_walk_wrap b a v t_eps runif =
     (let delta = dsqrt t_eps;
          p = dmul d_half (dadd d_one (dmul v delta));
          x = dmul a b;
          tic = 0
      in case walk_loop_wrap a delta p runif \<lparr>w_x = x, w_tic = tic, w_drawn = 0\<rparr> of
           None \<Rightarrow> None
         | Some s \<Rightarrow> Some (report a t_eps s))"

definition final_state_wrap ::
  "double \<Rightarrow> double \<Rightarrow> double \<Rightarrow> double \<Rightarrow> (nat \<Rightarrow> double) \<Rightarrow> walk_state option" where
  "final_state_wrap b a v t_eps runif =
     walk_loop_wrap a (dsqrt t_eps) (dmul d_half (dadd d_one (dmul v (dsqrt t_eps)))) runif
       \<lparr>w_x = dmul a b, w_tic = 0, w_drawn = 0\<rparr>"

section \<open>The value of a double\<close>

text \<open>
  For the proofs, the real number a mantissa and an exponent stand for, and the value of a
  double, an infinity lying at \<open>2 ^ 1024\<close>, just beyond every finite double. \<open>rne\<close> rounds a
  real number to the nearest integer, a tie going to the even one, and \<open>ulp_exp m e\<close> is the
  exponent at which \<open>fl_mag\<close> stores the magnitude \<open>m * 2 ^ e\<close>.
\<close>

definition exact :: "int \<Rightarrow> int \<Rightarrow> real" where
  "exact m e = of_int m * 2 powi e"

definition huge :: real where
  "huge = 2 ^ 1024"

fun rval :: "double \<Rightarrow> real" where
  "rval (Fin m e) = exact m e"
| "rval PInf = huge"
| "rval NInf = - huge"
| "rval NaN = 0"

definition rne :: "real \<Rightarrow> int" where
  "rne x =
     (let f = \<lfloor>x\<rfloor>; d = x - of_int f
      in if d < 1 / 2 then f else if 1 / 2 < d then f + 1 else if even f then f else f + 1)"

definition ulp_exp :: "int \<Rightarrow> int \<Rightarrow> int" where
  "ulp_exp m e = max (e + bitlen m - 53) (- 1074)"

section \<open>The loop and its trace\<close>

declare walk_loop.simps [simp del] walk_trace.simps [simp del]

lemma loop_body_Inr:
  "loop_body delta p runif s = Inr s' \<longleftrightarrow>
     w_tic s < INT_MAX \<and>
     s' = \<lparr>w_x = (if dlt (runif (w_drawn s)) p then dadd (w_x s) delta else dsub (w_x s) delta),
            w_tic = w_tic s + 1, w_drawn = Suc (w_drawn s)\<rparr>"
  by (auto simp: loop_body_def Let_def)

lemma loop_body_Inl: "loop_body delta p runif s = Inl err \<longleftrightarrow> \<not> w_tic s < INT_MAX"
  by (cases err) (auto simp: loop_body_def Let_def)

lemma first_step:
  "loop_body delta p runif \<lparr>w_x = x0, w_tic = 0, w_drawn = 0\<rparr> =
     Inr \<lparr>w_x = (if dlt (runif 0) p then dadd x0 delta else dsub x0 delta), w_tic = 1, w_drawn = 1\<rparr>"
  by (simp add: loop_body_Inr INT_MAX_def)

lemma walk_loop_stop:
  "loop_body delta p runif s = Inr s1 \<Longrightarrow> \<not> loop_cond a s1 \<Longrightarrow>
     walk_loop a delta p runif s = Inr s1"
  by (subst walk_loop.simps) simp

lemma walk_loop_again:
  "loop_body delta p runif s = Inr s1 \<Longrightarrow> loop_cond a s1 \<Longrightarrow>
     walk_loop a delta p runif s = walk_loop a delta p runif s1"
  by (subst walk_loop.simps) simp

lemma walk_loop_overflow:
  "loop_body delta p runif s = Inl err \<Longrightarrow> walk_loop a delta p runif s = Inl err"
  by (subst walk_loop.simps) simp

lemma walk_trace_stop:
  "loop_body delta p runif s = Inr s1 \<Longrightarrow> \<not> loop_cond a s1 \<Longrightarrow>
     walk_trace a delta p runif s = [s1]"
  by (subst walk_trace.simps) simp

lemma walk_trace_again:
  "loop_body delta p runif s = Inr s1 \<Longrightarrow> loop_cond a s1 \<Longrightarrow>
     walk_trace a delta p runif s = s1 # walk_trace a delta p runif s1"
  by (subst walk_trace.simps) simp

lemma walk_trace_overflow:
  "loop_body delta p runif s = Inl err \<Longrightarrow> walk_trace a delta p runif s = []"
  by (subst walk_trace.simps) simp

lemma walk_loop_exit: "walk_loop a delta p runif s = Inr s' \<Longrightarrow> \<not> loop_cond a s'"
proof (induction a delta p runif s rule: walk_loop.induct)
  case (1 a delta p runif s)
  show ?case
  proof (cases "loop_body delta p runif s")
    case (Inl err)
    with "1.prems" show ?thesis by (simp add: walk_loop_overflow)
  next
    case (Inr s1)
    with 1 show ?thesis
      by (cases "loop_cond a s1") (auto simp: walk_loop_again walk_loop_stop)
  qed
qed

lemma walk_loop_last:
  "walk_loop a delta p runif s = Inr s' \<Longrightarrow>
     walk_trace a delta p runif s \<noteq> [] \<and> last (walk_trace a delta p runif s) = s'"
proof (induction a delta p runif s rule: walk_loop.induct)
  case (1 a delta p runif s)
  show ?case
  proof (cases "loop_body delta p runif s")
    case (Inl err)
    with "1.prems" show ?thesis by (simp add: walk_loop_overflow)
  next
    case (Inr s1)
    with 1 show ?thesis
      by (cases "loop_cond a s1")
        (auto simp: walk_loop_again walk_loop_stop walk_trace_again walk_trace_stop)
  qed
qed

lemma walk_trace_inside:
  "t \<in> set (butlast (walk_trace a delta p runif s)) \<Longrightarrow> loop_cond a t"
proof (induction a delta p runif s rule: walk_trace.induct)
  case (1 a delta p runif s)
  show ?case
  proof (cases "loop_body delta p runif s")
    case (Inl err)
    with "1.prems" show ?thesis by (simp add: walk_trace_overflow)
  next
    case (Inr s1)
    show ?thesis
    proof (cases "loop_cond a s1")
      case True
      with Inr "1.prems" have "t = s1 \<or> t \<in> set (butlast (walk_trace a delta p runif s1))"
        by (auto simp: walk_trace_again split: if_splits)
      with "1.IH" [OF Inr True] True show ?thesis by auto
    next
      case False
      with Inr "1.prems" show ?thesis by (simp add: walk_trace_stop)
    qed
  qed
qed

lemma walk_trace_counts:
  "i < length (walk_trace a delta p runif s) \<Longrightarrow>
     w_tic (walk_trace a delta p runif s ! i) = w_tic s + int (Suc i) \<and>
     w_drawn (walk_trace a delta p runif s ! i) = w_drawn s + Suc i"
proof (induction a delta p runif s arbitrary: i rule: walk_trace.induct)
  case (1 a delta p runif s)
  show ?case
  proof (cases "loop_body delta p runif s")
    case (Inl err)
    with "1.prems" show ?thesis by (simp add: walk_trace_overflow)
  next
    case (Inr s1)
    then have s1: "w_tic s1 = w_tic s + 1" "w_drawn s1 = Suc (w_drawn s)"
      by (auto simp: loop_body_Inr)
    show ?thesis
    proof (cases "loop_cond a s1")
      case True
      with Inr have tr: "walk_trace a delta p runif s = s1 # walk_trace a delta p runif s1"
        by (rule walk_trace_again)
      show ?thesis
      proof (cases i)
        case 0
        with tr s1 show ?thesis by simp
      next
        case (Suc j)
        with "1.prems" tr have "j < length (walk_trace a delta p runif s1)" by simp
        from "1.IH" [OF Inr True this] tr Suc s1 show ?thesis by simp
      qed
    next
      case False
      with Inr have "walk_trace a delta p runif s = [s1]" by (rule walk_trace_stop)
      with "1.prems" s1 show ?thesis by simp
    qed
  qed
qed

lemma walk_loop_counts:
  assumes "walk_loop a delta p runif s = Inr s'"
  shows "w_tic s' = w_tic s + int (length (walk_trace a delta p runif s)) \<and>
         w_drawn s' = w_drawn s + length (walk_trace a delta p runif s)"
proof -
  let ?tr = "walk_trace a delta p runif s"
  from assms have last: "?tr \<noteq> []" "last ?tr = s'"
    by (auto dest: walk_loop_last)
  then obtain n where n: "length ?tr = Suc n"
    by (cases ?tr) auto
  then have "n < length ?tr" by simp
  from walk_trace_counts [OF this] last n show ?thesis
    by (simp add: last_conv_nth)
qed

lemma walk_trace_steps:
  "i < length (walk_trace a delta p runif s) \<Longrightarrow>
     loop_body delta p runif ((s # walk_trace a delta p runif s) ! i) =
       Inr (walk_trace a delta p runif s ! i)"
proof (induction a delta p runif s arbitrary: i rule: walk_trace.induct)
  case (1 a delta p runif s)
  show ?case
  proof (cases "loop_body delta p runif s")
    case (Inl err)
    with "1.prems" show ?thesis by (simp add: walk_trace_overflow)
  next
    case (Inr s1)
    show ?thesis
    proof (cases "loop_cond a s1")
      case True
      with Inr have tr: "walk_trace a delta p runif s = s1 # walk_trace a delta p runif s1"
        by (rule walk_trace_again)
      show ?thesis
      proof (cases i)
        case 0
        with tr Inr show ?thesis by simp
      next
        case (Suc j)
        with "1.prems" tr have "j < length (walk_trace a delta p runif s1)" by simp
        from "1.IH" [OF Inr True this] tr Suc show ?thesis by simp
      qed
    next
      case False
      with Inr have "walk_trace a delta p runif s = [s1]" by (rule walk_trace_stop)
      with "1.prems" Inr show ?thesis by simp
    qed
  qed
qed

lemma walk_trace_same_draws:
  "(\<And>i. w_drawn s \<le> i \<Longrightarrow> i < w_drawn s + length (walk_trace a delta p runif s) \<Longrightarrow>
        runif' i = runif i) \<Longrightarrow>
   walk_trace a delta p runif' s = walk_trace a delta p runif s \<and>
   walk_loop a delta p runif' s = walk_loop a delta p runif s"
proof (induction a delta p runif s rule: walk_trace.induct)
  case (1 a delta p runif s)
  show ?case
  proof (cases "loop_body delta p runif s")
    case (Inl err)
    then have "loop_body delta p runif' s = Inl err"
      by (simp add: loop_body_Inl)
    with Inl show ?thesis
      by (simp add: walk_trace_overflow walk_loop_overflow)
  next
    case (Inr s1)
    then have "walk_trace a delta p runif s \<noteq> []"
      by (cases "loop_cond a s1") (simp_all add: walk_trace_again walk_trace_stop)
    then have "runif' (w_drawn s) = runif (w_drawn s)"
      by (intro "1.prems") simp_all
    with Inr have body': "loop_body delta p runif' s = Inr s1"
      by (simp add: loop_body_Inr)
    show ?thesis
    proof (cases "loop_cond a s1")
      case True
      with Inr have tr: "walk_trace a delta p runif s = s1 # walk_trace a delta p runif s1"
        by (rule walk_trace_again)
      from Inr have d: "w_drawn s1 = Suc (w_drawn s)"
        by (auto simp: loop_body_Inr)
      have "walk_trace a delta p runif' s1 = walk_trace a delta p runif s1 \<and>
            walk_loop a delta p runif' s1 = walk_loop a delta p runif s1"
        by (rule "1.IH" [OF Inr True]) (rule "1.prems", simp_all add: tr d)
      with Inr body' True show ?thesis
        by (simp add: walk_trace_again walk_loop_again)
    next
      case False
      with Inr body' show ?thesis
        by (simp add: walk_trace_stop walk_loop_stop)
    qed
  qed
qed

lemma random_walk_final:
  "random_walk b a v t_eps runif =
     (case final_state b a v t_eps runif of Inl err \<Rightarrow> Inl err | Inr s \<Rightarrow> Inr (report a t_eps s))"
  by (simp add: random_walk_def final_state_def Let_def)

lemma random_walk_InrD:
  "random_walk b a v t_eps runif = Inr out \<Longrightarrow>
     \<exists>s. final_state b a v t_eps runif = Inr s \<and> out = report a t_eps s"
  by (auto simp: random_walk_final split: sum.splits)

lemma trajectory_nonempty: "trajectory b a v t_eps runif \<noteq> []"
proof -
  let ?s0 = "\<lparr>w_x = dmul a b, w_tic = 0, w_drawn = 0\<rparr>"
  obtain s1 where "loop_body (dsqrt t_eps) (dmul d_half (dadd d_one (dmul v (dsqrt t_eps)))) runif ?s0 = Inr s1"
    by (simp add: loop_body_Inr INT_MAX_def)
  then show ?thesis
    unfolding trajectory_def
    by (cases "loop_cond a s1") (simp_all add: walk_trace_again walk_trace_stop)
qed

lemma walk_trace_invariant:
  assumes init: "P (w_x s0)"
    and step: "\<And>s s'. P (w_x s) \<Longrightarrow> loop_body delta p runif s = Inr s' \<Longrightarrow> P (w_x s')"
  shows "i < length (walk_trace a delta p runif s0) \<Longrightarrow>
           P (w_x ((s0 # walk_trace a delta p runif s0) ! i))"
proof (induction i)
  case 0
  with init show ?case by simp
next
  case (Suc i)
  then have i: "i < length (walk_trace a delta p runif s0)"
    by simp
  from step [OF Suc.IH [OF i] walk_trace_steps [OF i]] show ?case
    by simp
qed

section \<open>Exact values and comparison\<close>

lemma exact_shift: "e' \<le> e \<Longrightarrow> exact (m * 2 ^ nat (e - e')) e' = exact m e"
proof -
  assume le: "e' \<le> e"
  have "(2::real) powi e = 2 powi (e - e') * 2 powi e'"
    by (simp flip: power_int_add)
  also from le have "(2::real) powi (e - e') = 2 ^ nat (e - e')"
    by (simp add: power_int_nonneg_exp)
  finally show ?thesis
    by (simp add: exact_def)
qed

lemma exact_scaled_less: "exact m1 e < exact m2 e \<longleftrightarrow> m1 < m2"
  by (simp add: exact_def)

lemma exact_scaled_eq: "exact m1 e = exact m2 e \<longleftrightarrow> m1 = m2"
  by (simp add: exact_def)

lemma exact_less_iff:
  "exact m1 e1 < exact m2 e2 \<longleftrightarrow>
     m1 * 2 ^ nat (e1 - min e1 e2) < m2 * 2 ^ nat (e2 - min e1 e2)"
proof -
  let ?e = "min e1 e2"
  have "exact m1 e1 < exact m2 e2 \<longleftrightarrow>
        exact (m1 * 2 ^ nat (e1 - ?e)) ?e < exact (m2 * 2 ^ nat (e2 - ?e)) ?e"
    by (simp add: exact_shift)
  then show ?thesis
    by (simp only: exact_scaled_less)
qed

lemma exact_eq_iff:
  "exact m1 e1 = exact m2 e2 \<longleftrightarrow>
     m1 * 2 ^ nat (e1 - min e1 e2) = m2 * 2 ^ nat (e2 - min e1 e2)"
proof -
  let ?e = "min e1 e2"
  have "exact m1 e1 = exact m2 e2 \<longleftrightarrow>
        exact (m1 * 2 ^ nat (e1 - ?e)) ?e = exact (m2 * 2 ^ nat (e2 - ?e)) ?e"
    by (simp add: exact_shift)
  then show ?thesis
    by (simp only: exact_scaled_eq)
qed

lemma exact_add:
  "exact (m1 * 2 ^ nat (e1 - min e1 e2) + m2 * 2 ^ nat (e2 - min e1 e2)) (min e1 e2) =
     exact m1 e1 + exact m2 e2"
proof -
  let ?e = "min e1 e2"
  have "exact (m1 * 2 ^ nat (e1 - ?e) + m2 * 2 ^ nat (e2 - ?e)) ?e =
        exact (m1 * 2 ^ nat (e1 - ?e)) ?e + exact (m2 * 2 ^ nat (e2 - ?e)) ?e"
    by (simp add: exact_def algebra_simps)
  then show ?thesis
    by (simp add: exact_shift)
qed

lemma exact_mult: "exact (m1 * m2) (e1 + e2) = exact m1 e1 * exact m2 e2"
  by (simp add: exact_def power_int_add)

lemma exact_minus: "exact (- m) e = - exact m e"
  by (simp add: exact_def)

lemma exact_pos_iff: "0 < exact m e \<longleftrightarrow> 0 < m"
  using exact_scaled_less [of 0 e m] by (simp add: exact_def)

lemma exact_nonneg_iff: "0 \<le> exact m e \<longleftrightarrow> 0 \<le> m"
  using exact_scaled_less [of m e 0] by (simp add: exact_def not_less [symmetric])

lemma exact_zero [simp]: "exact 0 e = 0"
  by (simp add: exact_def)

lemma exact_rescale: "exact m e / 2 powi e' = exact m (e - e')"
  by (simp add: exact_def power_int_diff)

lemma exact_bitlen:
  assumes "0 < m"
  shows "2 powi (e + bitlen m - 1) \<le> exact m e" "exact m e < 2 powi (e + bitlen m)"
proof -
  from assms have b: "1 \<le> bitlen m"
    by (simp add: bitlen_alt_def)
  from bitlen_bounds [OF assms] have lo: "2 ^ nat (bitlen m - 1) \<le> m" and hi: "m < 2 ^ nat (bitlen m)"
    by simp_all
  from lo have "(2::real) ^ nat (bitlen m - 1) \<le> of_int m"
    by (metis of_int_le_iff of_int_numeral of_int_power)
  with b have "(2::real) powi (bitlen m - 1) \<le> of_int m"
    by (simp add: power_int_nonneg_exp)
  then have "(2::real) powi (bitlen m - 1) * 2 powi e \<le> of_int m * 2 powi e"
    by (simp add: mult_right_mono)
  then show "2 powi (e + bitlen m - 1) \<le> exact m e"
    by (simp add: exact_def power_int_add [symmetric] algebra_simps)
  from hi have "of_int m < (2::real) ^ nat (bitlen m)"
    by (metis of_int_less_iff of_int_numeral of_int_power)
  with b have "of_int m < (2::real) powi (bitlen m)"
    by (simp add: power_int_nonneg_exp)
  then have "of_int m * 2 powi e < (2::real) powi (bitlen m) * 2 powi e"
    by (simp add: mult_strict_right_mono)
  then show "exact m e < 2 powi (e + bitlen m)"
    by (simp add: exact_def power_int_add [symmetric] algebra_simps)
qed

lemma dlt_Fin: "dlt (Fin m1 e1) (Fin m2 e2) \<longleftrightarrow> exact m1 e1 < exact m2 e2"
  by (simp add: exact_less_iff Let_def)

lemma deq_Fin: "deq (Fin m1 e1) (Fin m2 e2) \<longleftrightarrow> exact m1 e1 = exact m2 e2"
  by (simp add: exact_eq_iff Let_def)

lemma deq_not_dlt: "deq x y \<Longrightarrow> \<not> dlt x y \<and> \<not> dlt y x"
  by (cases x; cases y) (simp_all add: Let_def min.commute)

lemma dlt_asym: "dlt x y \<Longrightarrow> \<not> dlt y x"
  by (cases x; cases y) (simp_all add: dlt_Fin del: dlt.simps(1))

lemma dlt_not_NaN: "dlt x y \<Longrightarrow> x \<noteq> NaN \<and> y \<noteq> NaN"
  by (cases x; cases y) simp_all

lemma dlt_deq_right: "deq p y \<Longrightarrow> dlt r p = dlt r y"
  by (cases r; cases p; cases y) (simp_all add: dlt_Fin deq_Fin del: dlt.simps(1) deq.simps(1))

lemma dlt_zero_Fin: "dlt d_zero (Fin m e) \<longleftrightarrow> 0 < m"
  by (simp only: d_zero_def dlt_Fin exact_zero exact_pos_iff)

lemma consts_not_NaN [simp]: "d_zero \<noteq> NaN" "d_one \<noteq> NaN" "d_half \<noteq> NaN"
  by (simp_all add: d_zero_def d_one_def d_half_def)

section \<open>Rounding to nearest\<close>

text \<open>
  \<open>fl\<close> rounds the magnitude at the exponent \<open>ulp_exp\<close> with \<open>rne\<close>. It is monotone, it
  leaves a double as it is, and its result is a double.
\<close>

lemma rne_of_int [simp]: "rne (of_int n) = n"
  by (simp add: rne_def)

lemma rne_floor: "\<lfloor>x\<rfloor> \<le> rne x" "rne x \<le> \<lfloor>x\<rfloor> + 1"
  by (simp_all add: rne_def Let_def)

lemma rne_mono:
  assumes "x \<le> y"
  shows "rne x \<le> rne y"
proof (cases "\<lfloor>x\<rfloor> = \<lfloor>y\<rfloor>")
  case True
  with assms have "x - of_int \<lfloor>x\<rfloor> \<le> y - of_int \<lfloor>y\<rfloor>"
    by simp
  with True show ?thesis
    by (auto simp: rne_def Let_def)
next
  case False
  with assms have "\<lfloor>x\<rfloor> + 1 \<le> \<lfloor>y\<rfloor>"
    using floor_mono [of x y] by linarith
  with rne_floor(2) [of x] rne_floor(1) [of y] show ?thesis
    by linarith
qed

lemma rne_ge: "of_int n \<le> x \<Longrightarrow> n \<le> rne x"
  using rne_mono [of "of_int n" x] by simp

lemma rne_le: "x \<le> of_int n \<Longrightarrow> rne x \<le> n"
  using rne_mono [of x "of_int n"] by simp

lemma rne_shift_eq: "rne_shift m k = rne (of_int m / 2 ^ k)"
proof -
  let ?x = "real_of_int m / 2 ^ k"
  have fl: "\<lfloor>?x\<rfloor> = m div 2 ^ k"
    using floor_divide_of_int_eq [of m "2 ^ k", where ?'a = real] by simp
  have "real_of_int m = of_int (m div 2 ^ k) * 2 ^ k + of_int (m mod 2 ^ k)"
    by (metis of_int_add of_int_mult of_int_numeral of_int_power div_mult_mod_eq)
  then have frac: "?x - of_int (m div 2 ^ k) = of_int (m mod 2 ^ k) / 2 ^ k"
    by (simp add: field_simps)
  have lt: "?x - of_int (m div 2 ^ k) < 1 / 2 \<longleftrightarrow> 2 * (m mod 2 ^ k) < 2 ^ k"
  proof -
    have "?x - of_int (m div 2 ^ k) < 1 / 2 \<longleftrightarrow> real_of_int (2 * (m mod 2 ^ k)) < of_int (2 ^ k)"
      unfolding frac by (simp add: field_simps)
    then show ?thesis
      by (simp only: of_int_less_iff)
  qed
  have gt: "1 / 2 < ?x - of_int (m div 2 ^ k) \<longleftrightarrow> 2 ^ k < 2 * (m mod 2 ^ k)"
  proof -
    have "1 / 2 < ?x - of_int (m div 2 ^ k) \<longleftrightarrow> real_of_int (2 ^ k) < of_int (2 * (m mod 2 ^ k))"
      unfolding frac by (simp add: field_simps)
    then show ?thesis
      by (simp only: of_int_less_iff)
  qed
  show ?thesis
    unfolding rne_shift_def rne_def Let_def fl lt gt by simp
qed

lemma fl_mag_unfold:
  "fl_mag m e =
     pack (if ulp_exp m e \<le> e then m * 2 ^ nat (e - ulp_exp m e)
           else rne_shift m (nat (ulp_exp m e - e))) (ulp_exp m e)"
  by (simp add: fl_mag_def ulp_exp_def Let_def)

lemma fl_mag_rne:
  "fl_mag m e = pack (rne (exact m (e - ulp_exp m e))) (ulp_exp m e)"
proof (cases "ulp_exp m e \<le> e")
  case True
  then have "exact m (e - ulp_exp m e) = of_int (m * 2 ^ nat (e - ulp_exp m e))"
    by (simp add: exact_def power_int_nonneg_exp)
  then have "rne (exact m (e - ulp_exp m e)) = m * 2 ^ nat (e - ulp_exp m e)"
    by (simp only: rne_of_int)
  with True show ?thesis
    by (simp only: fl_mag_unfold if_True)
next
  case False
  then have "e - ulp_exp m e = - int (nat (ulp_exp m e - e))"
    by simp
  then have "exact m (e - ulp_exp m e) = of_int m / 2 ^ nat (ulp_exp m e - e)"
    by (simp only: exact_def power_int_minus power_int_of_nat divide_inverse)
  then have "rne (exact m (e - ulp_exp m e)) = rne_shift m (nat (ulp_exp m e - e))"
    by (simp add: rne_shift_eq)
  with False show ?thesis
    by (simp only: fl_mag_unfold if_False)
qed

lemma mantissa_bounds:
  assumes "0 < m"
  shows "0 \<le> rne (exact m (e - ulp_exp m e))"
    and "rne (exact m (e - ulp_exp m e)) \<le> 2 ^ 53"
    and "- 1074 < ulp_exp m e \<Longrightarrow> 2 ^ 52 \<le> rne (exact m (e - ulp_exp m e))"
proof -
  let ?E = "ulp_exp m e"
  from assms have "0 \<le> exact m (e - ?E)"
    by (simp add: exact_nonneg_iff)
  then show "0 \<le> rne (exact m (e - ?E))"
    using rne_ge [of 0] by simp
  have "e - ?E + bitlen m \<le> 53"
    by (simp add: ulp_exp_def)
  then have "(2::real) powi (e - ?E + bitlen m) \<le> 2 powi 53"
    by (intro power_int_increasing) simp_all
  with exact_bitlen(2) [OF assms, of "e - ?E"] have "exact m (e - ?E) \<le> of_int (2 ^ 53)"
    by simp
  then show "rne (exact m (e - ?E)) \<le> 2 ^ 53"
    by (rule rne_le)
  assume "- 1074 < ?E"
  then have "e - ?E + bitlen m - 1 = 52"
    by (simp add: ulp_exp_def max_def split: if_splits)
  with exact_bitlen(1) [OF assms, of "e - ?E"] have "of_int (2 ^ 52) \<le> exact m (e - ?E)"
    by simp
  then show "2 ^ 52 \<le> rne (exact m (e - ?E))"
    by (rule rne_ge)
qed

lemma huge_pos: "0 < huge"
  by (simp add: huge_def)

lemma two_powi_1024: "(2::real) ^ 53 * 2 powi 971 = huge" "(2::real) ^ 52 * 2 powi 972 = huge"
  by (simp_all add: huge_def)

lemma exact_bound:
  assumes "\<bar>m\<bar> < 2 ^ 53" "e \<le> 971"
  shows "\<bar>exact m e\<bar> < huge"
proof -
  from assms(1) have "\<bar>real_of_int m\<bar> < 2 ^ 53"
    by (metis of_int_abs of_int_less_iff of_int_numeral of_int_power)
  moreover from assms(2) have "(2::real) powi e \<le> 2 powi 971"
    by (intro power_int_increasing) simp_all
  moreover have pos: "0 < (2::real) powi e"
    by simp
  ultimately have "\<bar>real_of_int m\<bar> * 2 powi e < 2 ^ 53 * 2 powi 971"
    by (intro mult_less_le_imp_less) simp_all
  then show ?thesis
    by (simp only: exact_def abs_mult two_powi_1024 abs_of_pos [OF pos])
qed

lemma is_double_exact_bound:
  assumes "is_double (Fin m e)"
  shows "\<bar>exact m e\<bar> < huge"
proof -
  from assms have m: "\<bar>m\<bar> < 2 ^ 53" and e: "e \<le> 971"
    by (simp_all add: is_double_def)
  from m have "\<bar>real_of_int m\<bar> < 2 ^ 53"
    by (metis of_int_abs of_int_less_iff of_int_numeral of_int_power)
  moreover from e have "(2::real) powi e \<le> 2 powi 971"
    by (intro power_int_increasing) simp_all
  moreover have "0 < (2::real) powi e"
    by simp
  ultimately have "\<bar>real_of_int m\<bar> * 2 powi e < 2 ^ 53 * 2 powi 971"
    by (intro mult_less_le_imp_less) simp_all
  then show ?thesis
    by (simp only: exact_def abs_mult two_powi_1024 abs_of_pos [OF \<open>0 < 2 powi e\<close>])
qed

lemma pack_rval:
  assumes "0 \<le> M" "M \<le> 2 ^ 53" "- 1074 \<le> E" "- 1074 < E \<Longrightarrow> 2 ^ 52 \<le> M"
  shows "is_double (pack M E)" "pack M E \<noteq> NaN" "pack M E \<noteq> NInf"
    and "rval (pack M E) = min (exact M E) huge"
proof -
  let ?M' = "if M = 2 ^ 53 then 2 ^ 52 else M" and ?E' = "if M = 2 ^ 53 then E + 1 else E"
  have p: "pack M E = (if 971 < ?E' then PInf else Fin ?M' ?E')"
    by (simp add: pack_def Let_def)
  have same: "exact ?M' ?E' = exact M E"
    by (simp add: exact_def power_int_add)
  have big: "2 ^ 52 \<le> ?M'" if "- 1074 < ?E'"
    using that assms by (auto split: if_splits)
  from assms have small: "?M' < 2 ^ 53"
    by auto
  show "pack M E \<noteq> NaN" "pack M E \<noteq> NInf"
    by (simp_all add: p)
  show "is_double (pack M E)"
  proof (cases "971 < ?E'")
    case True
    then show ?thesis by (simp add: p is_double_def)
  next
    case False
    have "?E' = - 1074" if "?M' < 2 ^ 52"
      using that big assms(3) by (cases "- 1074 < ?E'") (auto split: if_splits)
    with False assms small show ?thesis
      by (auto simp: p is_double_def)
  qed
  show "rval (pack M E) = min (exact M E) huge"
  proof (cases "971 < ?E'")
    case True
    then have "- 1074 < ?E'" by linarith
    from big [OF this] have "(2::real) ^ 52 \<le> of_int ?M'"
      by (metis of_int_le_iff of_int_numeral of_int_power)
    moreover from True have "(2::real) powi 972 \<le> 2 powi ?E'"
      by (intro power_int_increasing) simp_all
    ultimately have "(2::real) ^ 52 * 2 powi 972 \<le> of_int ?M' * 2 powi ?E'"
      by (intro mult_mono) simp_all
    then have "huge \<le> exact ?M' ?E'"
      by (simp only: exact_def two_powi_1024)
    with same True show ?thesis
      by (simp add: p)
  next
    case False
    have "?E' = - 1074" if "?M' < 2 ^ 52"
      using that big assms(3) by (cases "- 1074 < ?E'") (auto split: if_splits)
    with False assms small have "is_double (Fin ?M' ?E')"
      by (auto simp: is_double_def)
    from is_double_exact_bound [OF this] same have "exact M E < huge"
      by simp
    with False same show ?thesis
      by (simp add: p)
  qed
qed

lemma fl_mag_facts:
  assumes "0 < m"
  shows "is_double (fl_mag m e)" "fl_mag m e \<noteq> NaN" "fl_mag m e \<noteq> NInf"
    and "rval (fl_mag m e) =
           min (exact (rne (exact m (e - ulp_exp m e))) (ulp_exp m e)) huge"
proof -
  have E: "- 1074 \<le> ulp_exp m e"
    by (simp add: ulp_exp_def)
  note mb = mantissa_bounds [OF assms, of e]
  show "is_double (fl_mag m e)" "fl_mag m e \<noteq> NaN" "fl_mag m e \<noteq> NInf"
    and "rval (fl_mag m e) =
           min (exact (rne (exact m (e - ulp_exp m e))) (ulp_exp m e)) huge"
    unfolding fl_mag_rne by (rule pack_rval [OF mb(1) mb(2) E mb(3)]; assumption)+
qed

lemma fl_mag_nonneg: "0 < m \<Longrightarrow> 0 \<le> rval (fl_mag m e)"
  using mantissa_bounds(1) [of m e] huge_pos by (simp add: fl_mag_facts(4) exact_nonneg_iff)

lemma bitlen_sum_mono:
  assumes "0 < m1" "0 < m2" "exact m1 e1 \<le> exact m2 e2"
  shows "e1 + bitlen m1 \<le> e2 + bitlen m2"
proof -
  from exact_bitlen(1) [OF assms(1), of e1] assms(3) exact_bitlen(2) [OF assms(2), of e2]
  have lt: "(2::real) powi (e1 + bitlen m1 - 1) < 2 powi (e2 + bitlen m2)"
    by linarith
  have "e1 + bitlen m1 - 1 < e2 + bitlen m2"
  proof (rule ccontr)
    assume "\<not> e1 + bitlen m1 - 1 < e2 + bitlen m2"
    then have "(2::real) powi (e2 + bitlen m2) \<le> 2 powi (e1 + bitlen m1 - 1)"
      by (intro power_int_increasing) simp_all
    with lt show False by linarith
  qed
  then show ?thesis by simp
qed

lemma fl_mag_mono:
  assumes "0 < m1" "0 < m2" "exact m1 e1 \<le> exact m2 e2"
  shows "rval (fl_mag m1 e1) \<le> rval (fl_mag m2 e2)"
proof -
  let ?E1 = "ulp_exp m1 e1" and ?E2 = "ulp_exp m2 e2"
  let ?M1 = "rne (exact m1 (e1 - ?E1))" and ?M2 = "rne (exact m2 (e2 - ?E2))"
  from bitlen_sum_mono [OF assms] have E: "?E1 \<le> ?E2"
    by (simp add: ulp_exp_def)
  have "exact ?M1 ?E1 \<le> exact ?M2 ?E2"
  proof (cases "?E1 = ?E2")
    case True
    from assms(3) have "exact m1 e1 / 2 powi ?E2 \<le> exact m2 e2 / 2 powi ?E2"
      by (simp add: divide_right_mono)
    then have "exact m1 (e1 - ?E2) \<le> exact m2 (e2 - ?E2)"
      by (simp only: exact_rescale)
    then have "rne (exact m1 (e1 - ?E2)) \<le> ?M2"
      by (rule rne_mono)
    then have "exact (rne (exact m1 (e1 - ?E2))) ?E2 \<le> exact ?M2 ?E2"
      by (simp add: exact_def)
    with True show ?thesis by simp
  next
    case False
    with E have lt: "?E1 + 1 \<le> ?E2" and sub: "- 1074 < ?E2"
      by (simp_all add: ulp_exp_def)
    from mantissa_bounds(2) [OF assms(1), of e1] have "real_of_int ?M1 \<le> 2 ^ 53"
      by (metis of_int_le_iff of_int_numeral of_int_power)
    then have "exact ?M1 ?E1 \<le> 2 ^ 53 * 2 powi ?E1"
      by (simp add: exact_def mult_right_mono)
    also have "\<dots> = 2 ^ 52 * 2 powi (?E1 + 1)"
      by (simp add: power_int_add)
    also from lt have "\<dots> \<le> 2 ^ 52 * 2 powi ?E2"
      by (intro mult_left_mono power_int_increasing) simp_all
    also from mantissa_bounds(3) [OF assms(2) sub] have "(2::real) ^ 52 \<le> of_int ?M2"
      by (metis of_int_le_iff of_int_numeral of_int_power)
    then have "2 ^ 52 * 2 powi ?E2 \<le> exact ?M2 ?E2"
      by (simp add: exact_def mult_right_mono)
    finally show ?thesis .
  qed
  then show ?thesis
    by (simp add: fl_mag_facts(4) [OF assms(1)] fl_mag_facts(4) [OF assms(2)] min.coboundedI1)
qed

lemma rval_dneg [simp]: "rval (dneg x) = - rval x"
  by (cases x) (simp_all add: exact_minus)

lemma is_double_dneg [simp]: "is_double (dneg x) = is_double x"
  by (cases x) (simp_all add: is_double_def)

lemma dneg_NaN_iff [simp]: "dneg x = NaN \<longleftrightarrow> x = NaN"
  by (cases x) simp_all

lemma is_double_zero: "is_double (Fin 0 (- 1074))"
  by (simp add: is_double_def)

lemma fl_facts: "is_double (fl m e)" "fl m e \<noteq> NaN"
  using fl_mag_facts(1,2) [of m e] fl_mag_facts(1,2) [of "- m" e]
  by (auto simp: fl_def is_double_zero)

lemma fl_mono:
  assumes "exact m1 e1 \<le> exact m2 e2"
  shows "rval (fl m1 e1) \<le> rval (fl m2 e2)"
proof -
  consider "m1 < 0" "m2 < 0" | "m1 < 0" "0 \<le> m2" | "m1 = 0" | "0 < m1"
    by linarith
  then show ?thesis
  proof cases
    case 1
    with assms have "exact (- m2) e2 \<le> exact (- m1) e1"
      by (simp add: exact_minus)
    with 1 have "rval (fl_mag (- m2) e2) \<le> rval (fl_mag (- m1) e1)"
      by (intro fl_mag_mono) simp_all
    with 1 show ?thesis
      by (simp add: fl_def)
  next
    case 2
    then have "rval (fl m1 e1) \<le> 0" "0 \<le> rval (fl m2 e2)"
      using fl_mag_nonneg [of "- m1" e1] fl_mag_nonneg [of m2 e2] by (auto simp: fl_def)
    then show ?thesis by linarith
  next
    case 3
    with assms have "0 \<le> m2"
      by (simp add: exact_nonneg_iff)
    with 3 show ?thesis
      using fl_mag_nonneg [of m2 e2] by (auto simp: fl_def)
  next
    case 4
    with assms have "0 < exact m2 e2"
      using exact_pos_iff [of m1 e1] by linarith
    then have "0 < m2"
      by (simp add: exact_pos_iff)
    with 4 assms show ?thesis
      by (simp add: fl_def fl_mag_mono)
  qed
qed

lemma bitlen_53:
  assumes "2 ^ 52 \<le> m" "m < 2 ^ 53"
  shows "bitlen m = 53"
proof -
  from assms have "bitlen m \<le> 53"
    by (simp add: bitlen_le_iff_power)
  moreover from assms have "53 \<le> bitlen m"
    by (simp add: bitlen_ge_iff_power)
  ultimately show ?thesis by simp
qed

lemma fl_mag_id:
  assumes "0 < m" "is_double (Fin m e)"
  shows "fl_mag m e = Fin m e"
proof -
  from assms have m: "m < 2 ^ 53" and e: "- 1074 \<le> e" "e \<le> 971"
    and sub: "m < 2 ^ 52 \<Longrightarrow> e = - 1074"
    by (simp_all add: is_double_def)
  have "ulp_exp m e = e"
  proof (cases "m < 2 ^ 52")
    case True
    with assms(1) have "bitlen m \<le> 52"
      by (simp add: bitlen_le_iff_power)
    with sub [OF True] show ?thesis
      by (simp add: ulp_exp_def)
  next
    case False
    with m have "bitlen m = 53"
      by (intro bitlen_53) simp_all
    with e show ?thesis
      by (simp add: ulp_exp_def)
  qed
  with m e show ?thesis
    by (simp add: fl_mag_unfold pack_def)
qed

lemma fl_id:
  assumes "is_double (Fin m e)"
  shows "fl m e = Fin m e"
proof -
  consider "m < 0" | "m = 0" | "0 < m" by linarith
  then show ?thesis
  proof cases
    case 1
    from assms have "is_double (Fin (- m) e)"
      by (simp add: is_double_def)
    with 1 have "fl_mag (- m) e = Fin (- m) e"
      by (intro fl_mag_id) simp_all
    with 1 show ?thesis
      by (simp add: fl_def)
  next
    case 2
    with assms show ?thesis
      by (simp add: fl_def is_double_def)
  next
    case 3
    with assms show ?thesis
      by (simp add: fl_def fl_mag_id)
  qed
qed

lemma rval_bounds:
  assumes "is_double x"
  shows "- huge \<le> rval x" "rval x \<le> huge"
  using assms is_double_exact_bound huge_pos
  by (cases x; fastforce simp: abs_less_iff)+

lemma rval_eq_huge:
  assumes "is_double x" "x \<noteq> NaN" "huge \<le> rval x"
  shows "x = PInf"
  using assms is_double_exact_bound huge_pos
  by (cases x) (fastforce simp: abs_less_iff)+

lemma rval_eq_minus_huge:
  assumes "is_double x" "x \<noteq> NaN" "rval x \<le> - huge"
  shows "x = NInf"
  using assms is_double_exact_bound huge_pos
  by (cases x) (fastforce simp: abs_less_iff)+

lemma rval_Fin_less_huge: "is_double (Fin m e) \<Longrightarrow> exact m e < huge \<and> - huge < exact m e"
  using is_double_exact_bound [of m e] by (simp add: abs_less_iff)

lemma dlt_rval:
  assumes "is_double x" "is_double y" "x \<noteq> NaN" "y \<noteq> NaN"
  shows "dlt x y \<longleftrightarrow> rval x < rval y"
proof (cases x; cases y)
  fix m1 e1 m2 e2
  assume "x = Fin m1 e1" "y = Fin m2 e2"
  then show ?thesis by (simp only: dlt_Fin rval.simps)
next
  fix m e
  assume xy: "x = Fin m e" "y = PInf"
  with assms(1) have "\<bar>exact m e\<bar> < huge" by (simp add: is_double_exact_bound)
  with xy show ?thesis by simp
next
  fix m e
  assume xy: "x = Fin m e" "y = NInf"
  with assms(1) have "\<bar>exact m e\<bar> < huge" by (simp add: is_double_exact_bound)
  with xy show ?thesis by simp
next
  fix m e
  assume xy: "x = PInf" "y = Fin m e"
  with assms(2) have "\<bar>exact m e\<bar> < huge" by (simp add: is_double_exact_bound)
  with xy show ?thesis by simp
next
  fix m e
  assume xy: "x = NInf" "y = Fin m e"
  with assms(2) have "\<bar>exact m e\<bar> < huge" by (simp add: is_double_exact_bound)
  with xy show ?thesis by simp
qed (use assms huge_pos in \<open>simp_all add: not_less less_imp_le\<close>)

lemma dle_rval:
  assumes "is_double x" "is_double y" "x \<noteq> NaN" "y \<noteq> NaN"
  shows "dle x y \<longleftrightarrow> rval x \<le> rval y"
  using dlt_rval [OF assms(2) assms(1) assms(4) assms(3)] assms by (auto simp: dle_def)

lemma canonical_unique:
  assumes "is_double (Fin m1 e1)" "is_double (Fin m2 e2)" "exact m1 e1 = exact m2 e2" "e1 \<le> e2"
  shows "m1 = m2 \<and> e1 = e2"
proof (cases "e1 = e2")
  case True
  with assms(3) show ?thesis
    by (simp add: exact_scaled_eq)
next
  case False
  with assms(4) have lt: "e1 < e2" by simp
  with assms(1) have "- 1074 < e2"
    by (simp add: is_double_def)
  with assms(2) have big: "2 ^ 52 \<le> \<bar>m2\<bar>"
    by (auto simp: is_double_def)
  from lt obtain k where k: "nat (e2 - e1) = Suc k"
    by (cases "nat (e2 - e1)") auto
  from assms(3) lt have "m1 = m2 * 2 ^ nat (e2 - e1)"
    by (simp add: exact_eq_iff min_def)
  then have "\<bar>m1\<bar> = \<bar>m2\<bar> * 2 * 2 ^ k"
    by (simp add: k abs_mult)
  moreover have "(1::int) \<le> 2 ^ k"
    by simp
  ultimately have "\<bar>m2\<bar> * 2 \<le> \<bar>m1\<bar>"
    by (metis abs_ge_zero mult.right_neutral mult_left_mono mult_nonneg_nonneg zero_le_numeral)
  with big assms(1) show ?thesis
    by (simp add: is_double_def)
qed

lemma rval_inj:
  assumes "is_double x" "is_double y" "x \<noteq> NaN" "y \<noteq> NaN" "rval x = rval y"
  shows "x = y"
proof (cases x)
  case x: (Fin m1 e1)
  show ?thesis
  proof (cases y)
    case y: (Fin m2 e2)
    show ?thesis
    proof (cases "e1 \<le> e2")
      case True
      with assms x y show ?thesis
        using canonical_unique [of m1 e1 m2 e2] by simp
    next
      case False
      with assms x y show ?thesis
        using canonical_unique [of m2 e2 m1 e1] by simp
    qed
  qed (use assms x rval_Fin_less_huge [of m1 e1] in simp_all)
next
  case x: PInf
  show ?thesis
  proof (cases y)
    case (Fin m2 e2)
    with assms x rval_Fin_less_huge [of m2 e2] show ?thesis by simp
  qed (use assms x huge_pos in simp_all)
next
  case x: NInf
  show ?thesis
  proof (cases y)
    case (Fin m2 e2)
    with assms x rval_Fin_less_huge [of m2 e2] show ?thesis by simp
  qed (use assms x huge_pos in simp_all)
next
  case NaN
  with assms show ?thesis by simp
qed

lemma fl_cong:
  assumes "exact S1 E1 = exact S2 E2"
  shows "fl S1 E1 = fl S2 E2"
proof -
  from assms have "rval (fl S1 E1) \<le> rval (fl S2 E2)" "rval (fl S2 E2) \<le> rval (fl S1 E1)"
    by (simp_all add: fl_mono)
  then show ?thesis
    by (intro rval_inj fl_facts) simp
qed

lemma fl_exact_id:
  assumes "is_double (Fin m e)" "exact S E = exact m e"
  shows "fl S E = Fin m e"
  using fl_cong [OF assms(2)] fl_id [OF assms(1)] by simp

lemma fl_round_le:
  assumes "is_double (Fin m e)" "exact m e \<le> exact S E"
  shows "exact m e \<le> rval (fl S E)"
  using fl_mono [OF assms(2)] fl_id [OF assms(1)] by simp

lemma fl_round_ge:
  assumes "is_double (Fin m e)" "exact S E \<le> exact m e"
  shows "rval (fl S E) \<le> exact m e"
  using fl_mono [OF assms(2)] fl_id [OF assms(1)] by simp

lemma rval_fl_zero [simp]: "rval (fl 0 e) = 0"
  by (simp add: fl_def)

lemma fl_nonneg: "0 \<le> m \<Longrightarrow> 0 \<le> rval (fl m e)"
  using fl_mono [of 0 e m e] by (simp add: exact_nonneg_iff)

text \<open>
  An integer multiple \<open>j * 2 ^ g\<close> with \<open>\<bar>j\<bar> < 2 ^ 53\<close> and \<open>g\<close> an exponent of the format is a
  double: rounding leaves it as it is.
\<close>

lemma fl_mag_grid:
  assumes g: "- 1074 \<le> g" "g \<le> 971" and j: "0 < j" "j < 2 ^ 53"
  shows "rval (fl_mag j g) = exact j g"
proof -
  from j have "bitlen j \<le> 53"
    by (simp add: bitlen_le_iff_power)
  with g have E: "ulp_exp j g \<le> g"
    by (simp add: ulp_exp_def)
  then have "exact j (g - ulp_exp j g) = of_int (j * 2 ^ nat (g - ulp_exp j g))"
    by (simp add: exact_def power_int_nonneg_exp)
  then have "rne (exact j (g - ulp_exp j g)) = j * 2 ^ nat (g - ulp_exp j g)"
    by (simp only: rne_of_int)
  then have "exact (rne (exact j (g - ulp_exp j g))) (ulp_exp j g) = exact j g"
    using E by (simp add: exact_shift)
  moreover from j g have "\<bar>exact j g\<bar> < huge"
    by (intro exact_bound) simp_all
  ultimately show ?thesis
    using j by (simp add: fl_mag_facts(4))
qed

lemma fl_grid:
  assumes "- 1074 \<le> g" "g \<le> 971" "\<bar>j\<bar> < 2 ^ 53"
  shows "rval (fl j g) = exact j g"
proof -
  consider "j < 0" | "j = 0" | "0 < j" by linarith
  then show ?thesis
  proof cases
    case 1
    with assms have "rval (fl_mag (- j) g) = exact (- j) g"
      by (intro fl_mag_grid) simp_all
    with 1 show ?thesis
      by (simp add: fl_def exact_minus)
  next
    case 2
    then show ?thesis by (simp add: fl_def)
  next
    case 3
    with assms show ?thesis
      by (simp add: fl_def fl_mag_grid)
  qed
qed

lemma fl_grid_Fin:
  assumes "- 1074 \<le> g" "g \<le> 971" "\<bar>j\<bar> < 2 ^ 53"
  obtains m e where "fl j g = Fin m e" "exact m e = exact j g"
proof -
  from assms have r: "rval (fl j g) = exact j g"
    by (rule fl_grid)
  from assms have "\<bar>exact j g\<bar> < huge"
    by (intro exact_bound) simp_all
  with r have "fl j g \<noteq> PInf" "fl j g \<noteq> NInf"
    by auto
  with fl_facts(2) [of j g] r that show ?thesis
    by (cases "fl j g") simp_all
qed

lemma dlt_grid:
  assumes "- 1074 \<le> g" "g \<le> 971" "\<bar>i\<bar> < 2 ^ 53" "\<bar>j\<bar> < 2 ^ 53"
  shows "dlt (fl i g) (fl j g) \<longleftrightarrow> i < j"
  using assms by (simp add: dlt_rval fl_facts fl_grid exact_scaled_less)

lemma d_zero_grid: "d_zero = fl 0 g"
  by (simp add: d_zero_def fl_def)

section \<open>Addition, square root and multiplication\<close>

lemma is_double_dadd [simp]: "is_double (dadd x y)"
  by (cases x; cases y) (simp_all add: fl_facts Let_def, simp_all add: is_double_def)

lemma is_double_dsub [simp]: "is_double (dsub x y)"
  by (simp add: dsub_def)

lemma is_double_dmul [simp]: "is_double (dmul x y)"
  by (cases x; cases y) (simp_all add: fl_facts, simp_all add: is_double_def)

lemma dadd_Fin:
  "\<exists>S E. dadd (Fin m1 e1) (Fin m2 e2) = fl S E \<and> exact S E = exact m1 e1 + exact m2 e2"
proof (intro exI conjI)
  show "dadd (Fin m1 e1) (Fin m2 e2) =
          fl (m1 * 2 ^ nat (e1 - min e1 e2) + m2 * 2 ^ nat (e2 - min e1 e2)) (min e1 e2)"
    by (simp add: Let_def)
  show "exact (m1 * 2 ^ nat (e1 - min e1 e2) + m2 * 2 ^ nat (e2 - min e1 e2)) (min e1 e2) =
          exact m1 e1 + exact m2 e2"
    by (rule exact_add)
qed

lemma dsub_Fin:
  "\<exists>S E. dsub (Fin m1 e1) (Fin m2 e2) = fl S E \<and> exact S E = exact m1 e1 - exact m2 e2"
  using dadd_Fin [of m1 e1 "- m2" e2] by (simp add: dsub_def exact_minus)

lemma dadd_grid:
  assumes g: "- 1074 \<le> g" "g \<le> 971" and ij: "\<bar>i\<bar> < 2 ^ 53" "\<bar>j\<bar> < 2 ^ 53"
  shows "dadd (fl i g) (fl j g) = fl (i + j) g"
proof -
  from g ij(1) obtain m1 e1 where 1: "fl i g = Fin m1 e1" "exact m1 e1 = exact i g"
    by (rule fl_grid_Fin)
  from g ij(2) obtain m2 e2 where 2: "fl j g = Fin m2 e2" "exact m2 e2 = exact j g"
    by (rule fl_grid_Fin)
  obtain S E where S: "dadd (Fin m1 e1) (Fin m2 e2) = fl S E" "exact S E = exact m1 e1 + exact m2 e2"
    using dadd_Fin by blast
  with 1 2 have "exact S E = exact (i + j) g"
    by (simp add: exact_def algebra_simps)
  then have "fl S E = fl (i + j) g"
    by (rule fl_cong)
  with S 1 2 show ?thesis
    by simp
qed

lemma dsub_grid:
  assumes g: "- 1074 \<le> g" "g \<le> 971" and ij: "\<bar>i\<bar> < 2 ^ 53" "\<bar>j\<bar> < 2 ^ 53"
  shows "dsub (fl i g) (fl j g) = fl (i - j) g"
proof -
  from g ij(1) obtain m1 e1 where 1: "fl i g = Fin m1 e1" "exact m1 e1 = exact i g"
    by (rule fl_grid_Fin)
  from g ij(2) obtain m2 e2 where 2: "fl j g = Fin m2 e2" "exact m2 e2 = exact j g"
    by (rule fl_grid_Fin)
  obtain S E where S: "dsub (Fin m1 e1) (Fin m2 e2) = fl S E" "exact S E = exact m1 e1 - exact m2 e2"
    using dsub_Fin by blast
  with 1 2 have "exact S E = exact (i - j) g"
    by (simp add: exact_def algebra_simps)
  then have "fl S E = fl (i - j) g"
    by (rule fl_cong)
  with S 1 2 show ?thesis
    by simp
qed

lemma dadd_NaN_iff:
  "dadd x y = NaN \<longleftrightarrow> x = NaN \<or> y = NaN \<or> (x = PInf \<and> y = NInf) \<or> (x = NInf \<and> y = PInf)"
  by (cases x; cases y) (simp_all add: fl_facts Let_def)

text \<open>Addition is monotone in each argument.\<close>

lemma dadd_mono_left:
  assumes x: "is_double x" "x \<noteq> NaN" and y: "is_double y" "y \<noteq> NaN"
    and le: "rval x \<le> rval y"
    and ok: "dadd x d \<noteq> NaN" "dadd y d \<noteq> NaN"
  shows "rval (dadd x d) \<le> rval (dadd y d)"
proof (cases d)
  case (Fin m e)
  show ?thesis
  proof (cases x)
    case x_fin: (Fin m1 e1)
    show ?thesis
    proof (cases y)
      case y_fin: (Fin m2 e2)
      obtain S1 E1 where 1: "dadd (Fin m1 e1) (Fin m e) = fl S1 E1" "exact S1 E1 = exact m1 e1 + exact m e"
        using dadd_Fin by blast
      obtain S2 E2 where 2: "dadd (Fin m2 e2) (Fin m e) = fl S2 E2" "exact S2 E2 = exact m2 e2 + exact m e"
        using dadd_Fin by blast
      from le x_fin y_fin 1 2 have "exact S1 E1 \<le> exact S2 E2"
        by simp
      then have "rval (fl S1 E1) \<le> rval (fl S2 E2)"
        by (rule fl_mono)
      with x_fin y_fin Fin 1 2 show ?thesis by simp
    next
      case PInf
      with Fin x_fin show ?thesis
        using rval_bounds(2) [OF is_double_dadd, of x d] by simp
    next
      case NInf
      with le x y have "x = NInf"
        by (intro rval_eq_minus_huge) simp_all
      with NInf show ?thesis by simp
    next
      case NaN
      with y show ?thesis by simp
    qed
  next
    case PInf
    with le x y have "y = PInf"
      by (intro rval_eq_huge) simp_all
    with PInf show ?thesis by simp
  next
    case NInf
    with Fin show ?thesis
      using rval_bounds(1) [OF is_double_dadd, of y d] by simp
  next
    case NaN
    with x show ?thesis by simp
  qed
next
  case PInf
  have "dadd z PInf = PInf" if "dadd z PInf \<noteq> NaN" for z
    using that by (cases z) simp_all
  with PInf ok have "dadd x d = PInf" "dadd y d = PInf"
    by simp_all
  then show ?thesis by simp
next
  case NInf
  have "dadd z NInf = NInf" if "dadd z NInf \<noteq> NaN" for z
    using that by (cases z) simp_all
  with NInf ok have "dadd x d = NInf" "dadd y d = NInf"
    by simp_all
  then show ?thesis by simp
next
  case NaN
  with ok show ?thesis by (cases x) simp_all
qed

lemma dadd_commute: "dadd x y = dadd y x"
  by (cases x; cases y) (simp_all add: Let_def min.commute add.commute)

lemma dadd_mono_right:
  assumes "is_double x" "x \<noteq> NaN" "is_double y" "y \<noteq> NaN" "rval x \<le> rval y"
    and "dadd d x \<noteq> NaN" "dadd d y \<noteq> NaN"
  shows "rval (dadd d x) \<le> rval (dadd d y)"
  using dadd_mono_left [of x y d] assms by (simp add: dadd_commute)

lemma dadd_zero_right:
  assumes "is_double x"
  shows "dadd x d_zero = x"
proof (cases x)
  case (Fin m e)
  obtain S E where "dadd (Fin m e) (Fin 0 (- 1074)) = fl S E" "exact S E = exact m e + exact 0 (- 1074)"
    using dadd_Fin by blast
  with Fin assms show ?thesis
    by (simp add: d_zero_def fl_exact_id del: dadd.simps)
qed (simp_all add: d_zero_def)

lemma dadd_zero_left: "is_double x \<Longrightarrow> dadd d_zero x = x"
  by (simp add: dadd_commute [of d_zero] dadd_zero_right)

text \<open>A double above the rounded sum is no less than the exact sum.\<close>

lemma above_rounded_sum:
  assumes "is_double (Fin mx ex)" "rval (dadd (Fin ma ea) (Fin md ed)) < exact mx ex"
  shows "exact ma ea + exact md ed \<le> exact mx ex"
proof (rule ccontr)
  assume "\<not> exact ma ea + exact md ed \<le> exact mx ex"
  moreover obtain S E where S: "dadd (Fin ma ea) (Fin md ed) = fl S E" "exact S E = exact ma ea + exact md ed"
    using dadd_Fin by blast
  ultimately have "exact mx ex \<le> exact S E"
    by simp
  with assms(1) have "exact mx ex \<le> rval (fl S E)"
    by (rule fl_round_le)
  with assms(2) S show False
    by simp
qed

lemma isqrt_search_nonneg: "0 \<le> r \<Longrightarrow> 0 \<le> isqrt_search n k r"
  by (induction k arbitrary: r) simp_all

lemma isqrt_nonneg: "0 \<le> isqrt n"
  by (simp add: isqrt_def isqrt_search_nonneg)

lemma is_double_dsqrt [simp]: "is_double (dsqrt t)"
  by (cases t) (simp_all add: fl_facts Let_def, simp_all add: is_double_def)

lemma dsqrt_nonneg: "0 \<le> rval (dsqrt t)"
  using huge_pos isqrt_nonneg
  by (cases t) (simp_all add: fl_nonneg Let_def)

lemma dsqrt_pos_input:
  assumes "dlt d_zero t"
  shows "dsqrt t \<noteq> NaN"
proof (cases t)
  case (Fin m e)
  with assms have "0 < m"
    by (simp add: dlt_zero_Fin)
  with Fin show ?thesis
    by (simp add: fl_facts Let_def)
qed (use assms in \<open>simp_all add: d_zero_def\<close>)

lemma is_double_d_one: "is_double d_one" "is_double d_zero" "is_double d_half"
  by (simp_all add: d_one_def d_zero_def d_half_def is_double_def)

lemma rval_consts [simp]: "rval d_zero = 0" "rval d_one = 1" "rval d_half = 1 / 2"
  by (simp_all add: d_one_def d_zero_def d_half_def exact_def)

lemma d_of_int_one: "d_of_int 1 = d_one"
  unfolding d_of_int_def d_one_def
  by (rule fl_exact_id) (simp_all add: is_double_def exact_def)

lemma d_of_int_facts: "is_double (d_of_int n)" "d_of_int n \<noteq> NaN"
  by (simp_all add: d_of_int_def fl_facts)

lemma d_of_int_ge_one:
  assumes "1 \<le> n"
  shows "1 \<le> rval (d_of_int n)"
proof -
  from assms have "exact 1 0 \<le> exact n 0"
    by (simp add: exact_def)
  then have "rval (fl 1 0) \<le> rval (fl n 0)"
    by (rule fl_mono)
  then show ?thesis
    using d_of_int_one by (simp add: d_of_int_def)
qed

lemma dmul_ge:
  assumes t: "is_double t" "dlt d_zero t" and k: "is_double k" "k \<noteq> NaN" "1 \<le> rval k"
  shows "dle t (dmul k t)"
proof (cases t)
  case t_fin: (Fin m e)
  with t have m: "0 < m"
    by (simp add: dlt_zero_Fin)
  show ?thesis
  proof (cases k)
    case (Fin m' e')
    with k have "1 \<le> exact m' e'" by simp
    moreover from m have "0 < exact m e" by (simp add: exact_pos_iff)
    ultimately have "exact m e \<le> exact m' e' * exact m e"
      by simp
    then have "exact m e \<le> exact (m' * m) (e' + e)"
      by (simp only: exact_mult)
    with t t_fin have "exact m e \<le> rval (fl (m' * m) (e' + e))"
      by (intro fl_round_le) simp_all
    with t t_fin Fin show ?thesis
      by (simp add: dle_rval fl_facts)
  next
    case PInf
    with t_fin m show ?thesis
      by (simp add: dle_def)
  next
    case NInf
    with k huge_pos show ?thesis by simp
  next
    case NaN
    with k show ?thesis by simp
  qed
next
  case PInf
  show ?thesis
  proof (cases k)
    case (Fin m' e')
    with k have "0 < exact m' e'" by simp
    then have "0 < m'" by (simp add: exact_pos_iff)
    with PInf Fin show ?thesis by (simp add: dle_def)
  next
    case NInf
    with k huge_pos show ?thesis by simp
  qed (use k PInf in \<open>simp_all add: dle_def\<close>)
qed (use t in \<open>simp_all add: d_zero_def\<close>)

lemma dmul_one_left:
  assumes "is_double t"
  shows "dmul d_one t = t"
proof (cases t)
  case (Fin m e)
  have "exact (2 ^ 52 * m) (- 52 + e) = exact (2 ^ 52) (- 52) * exact m e"
    by (rule exact_mult)
  also have "exact (2 ^ 52) (- 52) = 1"
    by (simp add: exact_def)
  finally have "fl (2 ^ 52 * m) (- 52 + e) = Fin m e"
    using assms Fin by (intro fl_exact_id) simp_all
  with Fin show ?thesis
    by (simp add: d_one_def)
qed (simp_all add: d_one_def)

section \<open>One step from inside and from outside the interval\<close>

lemma is_double_loop_body:
  "loop_body delta p runif s = Inr s' \<Longrightarrow> is_double (w_x s')"
  by (auto simp: loop_body_Inr)

lemma walk_loop_last_step:
  "walk_loop a delta p runif s = Inr s' \<Longrightarrow>
     \<exists>t. (t = s \<or> loop_cond a t \<and> is_double (w_x t)) \<and> loop_body delta p runif t = Inr s'"
proof (induction a delta p runif s rule: walk_loop.induct)
  case (1 a delta p runif s)
  show ?case
  proof (cases "loop_body delta p runif s")
    case (Inl err)
    with "1.prems" show ?thesis by (simp add: walk_loop_overflow)
  next
    case (Inr s1)
    show ?thesis
    proof (cases "loop_cond a s1")
      case True
      with Inr "1.prems" have "walk_loop a delta p runif s1 = Inr s'"
        by (simp add: walk_loop_again)
      from "1.IH" [OF Inr True this] obtain t
        where t: "t = s1 \<or> loop_cond a t \<and> is_double (w_x t)" "loop_body delta p runif t = Inr s'"
        by blast
      from t(1) True Inr have "loop_cond a t \<and> is_double (w_x t)"
        by (auto dest: is_double_loop_body)
      with t(2) show ?thesis by blast
    next
      case False
      with Inr "1.prems" show ?thesis
        by (auto simp: walk_loop_stop)
    qed
  qed
qed

lemma step_up_from_inside:
  assumes a: "is_double a" and x: "is_double x" "dlt d_zero x" "dlt x a"
    and d: "is_double d" "d \<noteq> NaN" "0 \<le> rval d"
  shows "dadd x d \<noteq> NaN" "dlt d_zero (dadd x d)" "dle (dadd x d) (dadd a d)"
proof -
  from x have nn: "x \<noteq> NaN" "a \<noteq> NaN"
    by (auto dest: dlt_not_NaN)
  with a x have r: "0 < rval x" "rval x < rval a"
    using dlt_rval [of d_zero x] dlt_rval [of x a] by (simp_all add: is_double_d_one)
  from r huge_pos have x_inf: "x \<noteq> NInf" and a_inf: "a \<noteq> NInf"
    by auto
  from d huge_pos have d_inf: "d \<noteq> NInf"
    by auto
  from nn d x_inf d_inf show 1: "dadd x d \<noteq> NaN"
    by (simp add: dadd_NaN_iff)
  from nn d a_inf d_inf have 2: "dadd a d \<noteq> NaN"
    by (simp add: dadd_NaN_iff)
  have "rval (dadd x d_zero) \<le> rval (dadd x d)"
    using d 1 nn x by (intro dadd_mono_right) (simp_all add: is_double_d_one dadd_zero_right)
  with x r have "0 < rval (dadd x d)"
    by (simp add: dadd_zero_right)
  with 1 show "dlt d_zero (dadd x d)"
    by (simp add: dlt_rval is_double_d_one)
  have "rval (dadd x d) \<le> rval (dadd a d)"
    using a x nn r 1 2 by (intro dadd_mono_left) simp_all
  with 1 2 show "dle (dadd x d) (dadd a d)"
    by (simp add: dle_rval)
qed

lemma step_down_from_inside:
  assumes a: "is_double a" and x: "is_double x" "dlt d_zero x" "dlt x a"
    and d: "is_double d" "d \<noteq> NaN" "0 \<le> rval d"
  shows "dsub x d \<noteq> NaN" "dlt (dsub x d) a" "dle (dneg d) (dsub x d)"
proof -
  from x have nn: "x \<noteq> NaN" "a \<noteq> NaN"
    by (auto dest: dlt_not_NaN)
  with a x have r: "0 < rval x" "rval x < rval a"
    using dlt_rval [of d_zero x] dlt_rval [of x a] by (simp_all add: is_double_d_one)
  from r rval_bounds(2) [OF a] huge_pos have x_inf: "x \<noteq> PInf"
    by auto
  from d have nd: "is_double (dneg d)" "dneg d \<noteq> NaN" "rval (dneg d) \<le> 0"
    by simp_all
  from d huge_pos have nd_inf: "dneg d \<noteq> PInf"
    by (cases d) auto
  from nn nd x_inf nd_inf show 1: "dsub x d \<noteq> NaN"
    by (simp add: dsub_def dadd_NaN_iff)
  have "rval (dadd x (dneg d)) \<le> rval (dadd x d_zero)"
    using nd 1 nn x by (intro dadd_mono_right) (simp_all add: is_double_d_one dadd_zero_right dsub_def)
  with x r have "rval (dsub x d) < rval a"
    by (simp add: dadd_zero_right dsub_def)
  with 1 a nn show "dlt (dsub x d) a"
    by (simp add: dlt_rval)
  have "rval (dadd d_zero (dneg d)) \<le> rval (dadd x (dneg d))"
    using nd 1 nn x r by (intro dadd_mono_left) (simp_all add: is_double_d_one dadd_zero_left dsub_def)
  with nd have "rval (dneg d) \<le> rval (dsub x d)"
    by (simp add: dadd_zero_left dsub_def)
  with 1 nd show "dle (dneg d) (dsub x d)"
    by (simp add: dle_rval)
qed

lemma step_from_above:
  assumes a: "is_double a" and x: "is_double x" "dlt (dadd a d) x"
    and d: "is_double d" "0 \<le> rval d"
  shows "dlt a (dadd x d)" "dsub x d \<noteq> NaN" "dle a (dsub x d)"
proof -
  from x have nn: "dadd a d \<noteq> NaN" "x \<noteq> NaN"
    by (auto dest: dlt_not_NaN)
  then have an: "a \<noteq> NaN" "d \<noteq> NaN"
    by (auto simp: dadd_NaN_iff)
  from x nn have lt: "rval (dadd a d) < rval x"
    using dlt_rval [of "dadd a d" x] by simp
  from d huge_pos have d_inf: "d \<noteq> NInf"
    by auto
  have "rval (dadd a d_zero) \<le> rval (dadd a d)"
    using d an nn a by (intro dadd_mono_right) (simp_all add: is_double_d_one dadd_zero_right)
  with a have ge: "rval a \<le> rval (dadd a d)"
    by (simp add: dadd_zero_right)
  from lt rval_bounds(1) [OF is_double_dadd, of a d] huge_pos have x_inf: "x \<noteq> NInf"
    by auto
  from nn an x_inf d_inf have up: "dadd x d \<noteq> NaN"
    by (simp add: dadd_NaN_iff)
  have "rval (dadd x d_zero) \<le> rval (dadd x d)"
    using d an nn x up by (intro dadd_mono_right) (simp_all add: is_double_d_one dadd_zero_right)
  with x have "rval x \<le> rval (dadd x d)"
    by (simp add: dadd_zero_right)
  with lt ge have "rval a < rval (dadd x d)"
    by linarith
  with a an up show "dlt a (dadd x d)"
    by (simp add: dlt_rval)
  have a_pinf: "a \<noteq> PInf"
  proof
    assume "a = PInf"
    with nn d_inf an have "dadd a d = PInf"
      by (cases d) simp_all
    with lt rval_bounds(2) [OF x(1)] show False
      by simp
  qed
  have d_pinf: "d \<noteq> PInf"
  proof
    assume "d = PInf"
    with nn an have "dadd a d = PInf"
      by (cases a) simp_all
    with lt rval_bounds(2) [OF x(1)] show False
      by simp
  qed
  from an d_inf d_pinf obtain md ed where d_fin: "d = Fin md ed"
    by (cases d) simp_all
  with nn x_inf show down: "dsub x d \<noteq> NaN"
    by (cases x) (simp_all add: dsub_def fl_facts Let_def)
  have "rval a \<le> rval (dsub x d)"
  proof (cases x)
    case x_fin: (Fin mx ex)
    show ?thesis
    proof (cases a)
      case a_fin: (Fin ma ea)
      from lt x_fin a_fin d_fin x(1) have "exact ma ea + exact md ed \<le> exact mx ex"
        by (intro above_rounded_sum) simp_all
      moreover obtain S E where S: "dsub (Fin mx ex) (Fin md ed) = fl S E"
          "exact S E = exact mx ex - exact md ed"
        using dsub_Fin by blast
      ultimately have "exact ma ea \<le> exact S E"
        by simp
      with a a_fin have "exact ma ea \<le> rval (fl S E)"
        by (intro fl_round_le) simp_all
      with S x_fin a_fin d_fin show ?thesis
        by simp
    next
      case NInf
      with rval_bounds(1) [OF is_double_dsub, of x d] show ?thesis
        by simp
    qed (use an a_pinf in simp_all)
  next
    case PInf
    with d_fin have "dsub x d = PInf"
      by (simp add: dsub_def)
    with rval_bounds(2) [OF a] show ?thesis
      by simp
  qed (use nn x_inf in simp_all)
  with a an down show "dle a (dsub x d)"
    by (simp add: dle_rval)
qed

lemma step_from_below:
  assumes x: "is_double x" "dlt x (dneg d)" and d: "is_double d" "0 \<le> rval d"
  shows "dadd x d \<noteq> NaN" "dle (dadd x d) d_zero" "dsub x d \<noteq> NaN" "dle (dsub x d) d_zero"
proof -
  from x have nn: "x \<noteq> NaN" "d \<noteq> NaN"
    by (auto dest: dlt_not_NaN)
  with x d have lt: "rval x < - rval d"
    using dlt_rval [of x "dneg d"] by simp
  from lt rval_bounds(1) [OF x(1)] have d_pinf: "d \<noteq> PInf"
    by auto
  from d huge_pos have d_inf: "d \<noteq> NInf"
    by auto
  from nn d_inf d_pinf obtain md ed where d_fin: "d = Fin md ed"
    by (cases d) simp_all
  from lt d rval_bounds(2) [OF x(1)] huge_pos have x_pinf: "x \<noteq> PInf"
    by auto
  from nn d_fin show up: "dadd x d \<noteq> NaN"
    by (simp add: dadd_NaN_iff)
  from nn d_fin show down: "dsub x d \<noteq> NaN"
    by (simp add: dsub_def dadd_NaN_iff)
  have "rval (dadd x d) \<le> 0"
  proof (cases x)
    case (Fin mx ex)
    obtain S E where S: "dadd (Fin mx ex) (Fin md ed) = fl S E" "exact S E = exact mx ex + exact md ed"
      using dadd_Fin by blast
    with lt Fin d_fin have "exact S E \<le> exact 0 (- 1074)"
      by simp
    then have "rval (fl S E) \<le> exact 0 (- 1074)"
      by (intro fl_round_ge is_double_zero)
    with S Fin d_fin show ?thesis by simp
  next
    case NInf
    with d_fin huge_pos show ?thesis by simp
  qed (use nn x_pinf in simp_all)
  with up show "dle (dadd x d) d_zero"
    by (simp add: dle_rval is_double_d_one)
  have "rval (dadd x (dneg d)) \<le> rval (dadd x d_zero)"
    using d nn x down
    by (intro dadd_mono_right) (simp_all add: is_double_d_one dadd_zero_right dsub_def)
  with x lt d have "rval (dsub x d) \<le> 0"
    by (simp add: dadd_zero_right dsub_def)
  with down show "dle (dsub x d) d_zero"
    by (simp add: dle_rval is_double_d_one)
qed

lemma step_up_ge:
  assumes "is_double x" "x \<noteq> NaN" "x \<noteq> NInf" "is_double d" "d \<noteq> NaN" "0 \<le> rval d"
  shows "dadd x d \<noteq> NaN" "dle x (dadd x d)"
proof -
  from assms huge_pos have "d \<noteq> NInf"
    by auto
  with assms show 1: "dadd x d \<noteq> NaN"
    by (simp add: dadd_NaN_iff)
  have "rval (dadd x d_zero) \<le> rval (dadd x d)"
    using assms 1 by (intro dadd_mono_right) (simp_all add: is_double_d_one dadd_zero_right)
  with assms 1 show "dle x (dadd x d)"
    by (simp add: dadd_zero_right dle_rval)
qed

lemma step_down_le:
  assumes "is_double x" "x \<noteq> NaN" "is_double d" "d \<noteq> NaN" "d \<noteq> PInf" "0 \<le> rval d"
  shows "dsub x d \<noteq> NaN" "dle (dsub x d) x"
proof -
  from assms huge_pos have inf: "dneg d \<noteq> PInf" "dneg d \<noteq> NInf"
    by (cases d; auto)+
  with assms show 1: "dsub x d \<noteq> NaN"
    by (simp add: dsub_def dadd_NaN_iff)
  have "rval (dadd x (dneg d)) \<le> rval (dadd x d_zero)"
    using assms 1 by (intro dadd_mono_right) (simp_all add: is_double_d_one dadd_zero_right dsub_def)
  with assms 1 show "dle (dsub x d) x"
    by (simp add: dadd_zero_right dle_rval dsub_def)
qed

lemma dmul_PInf_right: "dmul v PInf = NaN \<or> dmul v PInf = PInf \<or> dmul v PInf = NInf"
  by (cases v) simp_all

lemma dadd_infinite: "y = NaN \<or> y = PInf \<or> y = NInf \<Longrightarrow> dadd d_one y = y"
  by (auto simp: d_one_def)

lemma dmul_half_infinite: "y = NaN \<or> y = PInf \<or> y = NInf \<Longrightarrow> dmul d_half y = y"
  by (auto simp: d_half_def)

text \<open>A probability equal to a finite number comes from a step size that is not infinite.\<close>

lemma finite_p_finite_delta:
  assumes "deq (dmul d_half (dadd d_one (dmul v d))) (Fin m e)"
  shows "d \<noteq> PInf"
proof
  assume "d = PInf"
  with dmul_PInf_right [of v]
  have "dmul d_half (dadd d_one (dmul v d)) = NaN \<or> dmul d_half (dadd d_one (dmul v d)) = PInf \<or>
        dmul d_half (dadd d_one (dmul v d)) = NInf"
    by (auto simp: dadd_infinite dmul_half_infinite)
  with assms show False
    by auto
qed

lemma report_one:
  assumes "is_double t_eps" "w_tic s = 1"
  shows "report a t_eps s = \<lparr>choice = (if dlt a (w_x s) then 1 else 0), time = t_eps\<rparr>"
  using assms by (simp add: report_def d_of_int_one dmul_one_left)

text \<open>
  With \<open>p\<close> exactly 1 every draw in \<open>[0, 1)\<close> is below \<open>p\<close> and every step adds \<open>delta\<close>; with
  \<open>p\<close> exactly 0 no draw is below \<open>p\<close> and every step subtracts it.
\<close>

lemma constant_direction_steps:
  assumes draws: "\<forall>i. \<not> dlt (runif i) d_zero \<and> dlt (runif i) d_one"
    and pre: "dlt d_zero t_eps" "dle d_zero (dmul a b)"
  shows "(deq (dmul d_half (dadd d_one (dmul v (dsqrt t_eps)))) d_one \<longrightarrow>
            (\<forall>i < length (trajectory b a v t_eps runif).
               w_x (trajectory b a v t_eps runif ! i) =
                 dadd (w_x ((\<lparr>w_x = dmul a b, w_tic = 0, w_drawn = 0\<rparr> #
                   trajectory b a v t_eps runif) ! i)) (dsqrt t_eps) \<and>
               dle (w_x ((\<lparr>w_x = dmul a b, w_tic = 0, w_drawn = 0\<rparr> #
                   trajectory b a v t_eps runif) ! i))
                 (w_x (trajectory b a v t_eps runif ! i)))) \<and>
         (deq (dmul d_half (dadd d_one (dmul v (dsqrt t_eps)))) d_zero \<longrightarrow>
            (\<forall>i < length (trajectory b a v t_eps runif).
               w_x (trajectory b a v t_eps runif ! i) =
                 dsub (w_x ((\<lparr>w_x = dmul a b, w_tic = 0, w_drawn = 0\<rparr> #
                   trajectory b a v t_eps runif) ! i)) (dsqrt t_eps) \<and>
               dle (w_x (trajectory b a v t_eps runif ! i))
                 (w_x ((\<lparr>w_x = dmul a b, w_tic = 0, w_drawn = 0\<rparr> #
                   trajectory b a v t_eps runif) ! i))))"
proof -
  let ?d = "dsqrt t_eps" and ?p = "dmul d_half (dadd d_one (dmul v (dsqrt t_eps)))"
  let ?s0 = "\<lparr>w_x = dmul a b, w_tic = 0, w_drawn = 0\<rparr>"
  let ?tr = "trajectory b a v t_eps runif"
  from pre(1) have d: "is_double ?d" "?d \<noteq> NaN" "0 \<le> rval ?d"
    by (simp_all add: dsqrt_pos_input dsqrt_nonneg)
  from pre(2) have x0: "is_double (dmul a b)" "dmul a b \<noteq> NaN" "0 \<le> rval (dmul a b)"
    using dle_rval [of d_zero "dmul a b"] by (simp_all add: dle_def is_double_d_one)
  have body: "loop_body ?d ?p runif ((?s0 # ?tr) ! i) = Inr (?tr ! i)" if "i < length ?tr" for i
    using walk_trace_steps [of i a ?d ?p runif ?s0] that by (simp add: trajectory_def)
  {
    assume p: "deq ?p d_one"
    let ?P = "\<lambda>x. is_double x \<and> x \<noteq> NaN \<and> 0 \<le> rval x"
    have up: "w_x s' = dadd (w_x s) ?d" if "loop_body ?d ?p runif s = Inr s'" for s s'
      using that draws dlt_deq_right [OF p] by (auto simp: loop_body_Inr)
    have keep: "?P (w_x s')" if "?P (w_x s)" "loop_body ?d ?p runif s = Inr s'" for s s'
    proof -
      from that(1) huge_pos have "w_x s \<noteq> NInf"
        by auto
      with that(1) d have "dadd (w_x s) ?d \<noteq> NaN" "dle (w_x s) (dadd (w_x s) ?d)"
        by (simp_all add: step_up_ge)
      with that(1) have "dadd (w_x s) ?d \<noteq> NaN \<and> 0 \<le> rval (dadd (w_x s) ?d)"
        using dle_rval [of "w_x s" "dadd (w_x s) ?d"] by simp
      with up [OF that(2)] show ?thesis
        by simp
    qed
    have "w_x (?tr ! i) = dadd (w_x ((?s0 # ?tr) ! i)) ?d \<and> dle (w_x ((?s0 # ?tr) ! i)) (w_x (?tr ! i))"
      if i: "i < length ?tr" for i
    proof -
      have "?P (w_x ((?s0 # ?tr) ! i))"
        unfolding trajectory_def
        by (rule walk_trace_invariant [where P = ?P, OF _ keep])
          (use x0 i in \<open>simp_all add: trajectory_def\<close>)
      moreover from this huge_pos have "w_x ((?s0 # ?tr) ! i) \<noteq> NInf"
        by auto
      ultimately show ?thesis
        using up [OF body [OF i]] d by (simp add: step_up_ge)
    qed
  }
  moreover
  {
    assume p: "deq ?p d_zero"
    then have fin: "?d \<noteq> PInf"
      unfolding d_zero_def by (rule finite_p_finite_delta)
    let ?P = "\<lambda>x. is_double x \<and> x \<noteq> NaN"
    have down: "w_x s' = dsub (w_x s) ?d" if "loop_body ?d ?p runif s = Inr s'" for s s'
      using that draws dlt_deq_right [OF p] by (auto simp: loop_body_Inr)
    have keep: "?P (w_x s')" if "?P (w_x s)" "loop_body ?d ?p runif s = Inr s'" for s s'
      using that(1) d fin down [OF that(2)] by (simp add: step_down_le)
    have "w_x (?tr ! i) = dsub (w_x ((?s0 # ?tr) ! i)) ?d \<and> dle (w_x (?tr ! i)) (w_x ((?s0 # ?tr) ! i))"
      if i: "i < length ?tr" for i
    proof -
      have "?P (w_x ((?s0 # ?tr) ! i))"
        unfolding trajectory_def
        by (rule walk_trace_invariant [where P = ?P, OF _ keep])
          (use x0 i in \<open>simp_all add: trajectory_def\<close>)
      then show ?thesis
        using down [OF body [OF i]] d fin by (simp add: step_down_le)
    qed
  }
  ultimately show ?thesis
    by blast
qed

text \<open>
  On such a grid the walk counts in integers: from \<open>k * 2 ^ g\<close> a step up lands on
  \<open>(k + c) * 2 ^ g\<close> and a step down on \<open>(k - c) * 2 ^ g\<close>, and the loop goes on while the
  new multiple is inside \<open>(0, ka)\<close>. The counter stays below \<open>INT_MAX\<close> as long as the
  remaining distance is at most \<open>(INT_MAX - tic) * c\<close>.
\<close>

lemma grid_walk_up:
  assumes g: "- 1074 \<le> g" "g \<le> 971" and c: "0 < c" and ka: "ka + c < 2 ^ 53"
    and up: "\<forall>i. dlt (runif i) p"
  shows "0 \<le> k \<Longrightarrow> k \<le> ka \<Longrightarrow> ka - k \<le> (INT_MAX - n) * c \<Longrightarrow> n < INT_MAX \<Longrightarrow>
    \<exists>s'. walk_loop (fl ka g) (fl c g) p runif \<lparr>w_x = fl k g, w_tic = n, w_drawn = d\<rparr> = Inr s' \<and>
      n < w_tic s' \<and> (w_tic s' = n + 1 \<or> (w_tic s' - n - 1) * c < ka - k)"
proof (induction "nat (ka - k)" arbitrary: k n d rule: less_induct)
  case less
  let ?s = "\<lparr>w_x = fl k g, w_tic = n, w_drawn = d\<rparr>"
  let ?s1 = "\<lparr>w_x = fl (k + c) g, w_tic = n + 1, w_drawn = Suc d\<rparr>"
  from less.prems c ka have bounds: "\<bar>k\<bar> < 2 ^ 53" "\<bar>c\<bar> < 2 ^ 53" "\<bar>k + c\<bar> < 2 ^ 53" "\<bar>ka\<bar> < 2 ^ 53"
    by simp_all
  from up less.prems(4) have body: "loop_body (fl c g) p runif ?s = Inr ?s1"
    by (simp add: loop_body_def dadd_grid [OF g bounds(1,2)])
  have cond: "loop_cond (fl ka g) ?s1 \<longleftrightarrow> k + c < ka"
    using less.prems c bounds
    by (simp add: loop_cond_def d_zero_grid [of g] dlt_grid [OF g])
  show ?case
  proof (cases "k + c < ka")
    case True
    from True c less.prems have "nat (ka - (k + c)) < nat (ka - k)"
      by simp
    moreover from True less.prems c have "0 \<le> k + c" "k + c \<le> ka"
      by simp_all
    moreover from less.prems(3) have le: "ka - (k + c) \<le> (INT_MAX - (n + 1)) * c"
      by (simp add: algebra_simps)
    moreover have "n + 1 < INT_MAX"
    proof (rule ccontr)
      assume "\<not> n + 1 < INT_MAX"
      then have "INT_MAX - (n + 1) \<le> 0"
        by simp
      with c have "(INT_MAX - (n + 1)) * c \<le> 0"
        by (simp add: mult_nonpos_nonneg)
      with le True show False
        by simp
    qed
    ultimately obtain s' where s':
      "walk_loop (fl ka g) (fl c g) p runif ?s1 = Inr s'" "n + 1 < w_tic s'"
      "w_tic s' = n + 1 + 1 \<or> (w_tic s' - (n + 1) - 1) * c < ka - (k + c)"
      using less.hyps [of "k + c" "n + 1" "Suc d"] by blast
    from body cond True s'(1)
    have "walk_loop (fl ka g) (fl c g) p runif ?s = Inr s'"
      by (simp add: walk_loop_again)
    moreover from s'(2) have "n < w_tic s'"
      by simp
    moreover from s'(3) True have "(w_tic s' - n - 1) * c < ka - k"
      by (auto simp: algebra_simps)
    ultimately show ?thesis
      by blast
  next
    case False
    with body cond have "walk_loop (fl ka g) (fl c g) p runif ?s = Inr ?s1"
      by (simp add: walk_loop_stop)
    then show ?thesis
      by simp
  qed
qed

lemma grid_walk_down:
  assumes g: "- 1074 \<le> g" "g \<le> 971" and c: "0 < c" and ka: "0 \<le> ka" "ka + c < 2 ^ 53"
    and down: "\<forall>i. \<not> dlt (runif i) p"
  shows "0 \<le> k \<Longrightarrow> k \<le> ka \<Longrightarrow> k \<le> (INT_MAX - n) * c \<Longrightarrow> n < INT_MAX \<Longrightarrow>
    \<exists>s'. walk_loop (fl ka g) (fl c g) p runif \<lparr>w_x = fl k g, w_tic = n, w_drawn = d\<rparr> = Inr s' \<and>
      n < w_tic s' \<and> (w_tic s' = n + 1 \<or> (w_tic s' - n - 1) * c < k)"
proof (induction "nat k" arbitrary: k n d rule: less_induct)
  case less
  let ?s = "\<lparr>w_x = fl k g, w_tic = n, w_drawn = d\<rparr>"
  let ?s1 = "\<lparr>w_x = fl (k - c) g, w_tic = n + 1, w_drawn = Suc d\<rparr>"
  from less.prems c ka have bounds: "\<bar>k\<bar> < 2 ^ 53" "\<bar>c\<bar> < 2 ^ 53" "\<bar>k - c\<bar> < 2 ^ 53" "\<bar>ka\<bar> < 2 ^ 53"
    by simp_all
  from down less.prems(4) have body: "loop_body (fl c g) p runif ?s = Inr ?s1"
    by (simp add: loop_body_def dsub_grid [OF g bounds(1,2)])
  have cond: "loop_cond (fl ka g) ?s1 \<longleftrightarrow> 0 < k - c"
    using less.prems c bounds
    by (simp add: loop_cond_def d_zero_grid [of g] dlt_grid [OF g])
  show ?case
  proof (cases "0 < k - c")
    case True
    from True c less.prems have "nat (k - c) < nat k"
      by simp
    moreover from True less.prems c have "0 \<le> k - c" "k - c \<le> ka"
      by simp_all
    moreover from less.prems(3) have le: "k - c \<le> (INT_MAX - (n + 1)) * c"
      by (simp add: algebra_simps)
    moreover have "n + 1 < INT_MAX"
    proof (rule ccontr)
      assume "\<not> n + 1 < INT_MAX"
      then have "INT_MAX - (n + 1) \<le> 0"
        by simp
      with c have "(INT_MAX - (n + 1)) * c \<le> 0"
        by (simp add: mult_nonpos_nonneg)
      with le True show False
        by simp
    qed
    ultimately obtain s' where s':
      "walk_loop (fl ka g) (fl c g) p runif ?s1 = Inr s'" "n + 1 < w_tic s'"
      "w_tic s' = n + 1 + 1 \<or> (w_tic s' - (n + 1) - 1) * c < k - c"
      using less.hyps [of "k - c" "n + 1" "Suc d"] by blast
    from body cond True s'(1)
    have "walk_loop (fl ka g) (fl c g) p runif ?s = Inr s'"
      by (simp add: walk_loop_again)
    moreover from s'(2) have "n < w_tic s'"
      by simp
    moreover from s'(3) True have "(w_tic s' - n - 1) * c < k"
      by (auto simp: algebra_simps)
    ultimately show ?thesis
      by blast
  next
    case False
    with body cond have "walk_loop (fl ka g) (fl c g) p runif ?s = Inr ?s1"
      by (simp add: walk_loop_stop)
    then show ?thesis
      by simp
  qed
qed

lemma steps_le_ceiling:
  fixes n c ka :: int
  assumes "0 < c" "0 < ka" "1 \<le> n" "n = 1 \<or> (n - 1) * c < ka"
  shows "n \<le> \<lceil>real_of_int ka / real_of_int c\<rceil>"
proof -
  from assms(1,2) have pos: "0 < real_of_int ka / real_of_int c"
    by simp
  from assms(4) show ?thesis
  proof
    assume "n = 1"
    with pos show ?thesis
      by (simp add: less_ceiling_iff [symmetric] int_one_le_iff_zero_less)
  next
    assume "(n - 1) * c < ka"
    then have "real_of_int (n - 1) * real_of_int c < real_of_int ka"
      by (metis of_int_less_iff of_int_mult)
    with assms(1) have "real_of_int (n - 1) < real_of_int ka / real_of_int c"
      by (simp add: pos_less_divide_eq)
    then have "n - 1 < \<lceil>real_of_int ka / real_of_int c\<rceil>"
      by (simp only: less_ceiling_iff)
    then show ?thesis
      by simp
  qed
qed

lemma grid_ratio:
  assumes "- 1074 \<le> g" "g \<le> 971" "\<bar>ka\<bar> < 2 ^ 53" "\<bar>c\<bar> < 2 ^ 53"
  shows "rval (fl ka g) / rval (fl c g) = real_of_int ka / real_of_int c"
  using assms by (simp add: fl_grid exact_def)

lemma grid_iteration_bound:
  assumes draws: "\<forall>i. \<not> dlt (runif i) d_zero \<and> dlt (runif i) d_one"
    and g: "- 1074 \<le> g" "g \<le> 971"
    and grid: "dsqrt t_eps = fl c g" "a = fl ka g" "dmul a b = fl k0 g"
    and k: "0 < c" "0 \<le> k0" "k0 \<le> ka" "0 < ka" "ka + c < 2 ^ 53" "ka \<le> INT_MAX * c"
    and p: "deq (dmul d_half (dadd d_one (dmul v (dsqrt t_eps)))) d_one \<or>
            deq (dmul d_half (dadd d_one (dmul v (dsqrt t_eps)))) d_zero"
  shows "\<exists>s. final_state b a v t_eps runif = Inr s \<and> 1 \<le> w_tic s \<and>
              w_tic s \<le> \<lceil>rval a / rval (dsqrt t_eps)\<rceil>"
proof -
  let ?p = "dmul d_half (dadd d_one (dmul v (dsqrt t_eps)))"
  let ?s0 = "\<lparr>w_x = fl k0 g, w_tic = 0, w_drawn = 0\<rparr>"
  have fs: "final_state b a v t_eps runif = walk_loop (fl ka g) (fl c g) ?p runif ?s0"
    by (simp only: final_state_def grid(3)) (simp only: grid(1,2))
  from k have ratio: "rval a / rval (dsqrt t_eps) = real_of_int ka / real_of_int c"
    by (simp add: grid grid_ratio [OF g])
  have "\<exists>s. walk_loop (fl ka g) (fl c g) ?p runif ?s0 = Inr s \<and> 0 < w_tic s \<and>
             (w_tic s = 1 \<or> (w_tic s - 1) * c < ka)"
    using p
  proof
    assume "deq ?p d_one"
    with draws have "\<forall>i. dlt (runif i) ?p"
      by (simp add: dlt_deq_right)
    moreover from k have "ka - k0 \<le> (INT_MAX - 0) * c"
      by simp
    ultimately obtain s where "walk_loop (fl ka g) (fl c g) ?p runif ?s0 = Inr s" "0 < w_tic s"
      "w_tic s = 0 + 1 \<or> (w_tic s - 0 - 1) * c < ka - k0"
      using grid_walk_up [OF g k(1,5), of runif ?p k0 0 0] k by (auto simp: INT_MAX_def)
    with k(2) show ?thesis
      by auto
  next
    assume "deq ?p d_zero"
    with draws have "\<forall>i. \<not> dlt (runif i) ?p"
      by (simp add: dlt_deq_right)
    moreover from k have "k0 \<le> (INT_MAX - 0) * c" "0 \<le> ka"
      by simp_all
    ultimately obtain s where "walk_loop (fl ka g) (fl c g) ?p runif ?s0 = Inr s" "0 < w_tic s"
      "w_tic s = 0 + 1 \<or> (w_tic s - 0 - 1) * c < k0"
      using grid_walk_down [OF g k(1) _ k(5), of runif ?p k0 0 0] k by (auto simp: INT_MAX_def)
    with k(3) show ?thesis
      by auto
  qed
  then obtain s where s: "walk_loop (fl ka g) (fl c g) ?p runif ?s0 = Inr s" "1 \<le> w_tic s"
    "w_tic s = 1 \<or> (w_tic s - 1) * c < ka"
    by auto
  from k(1,4) s(2,3) have "w_tic s \<le> \<lceil>real_of_int ka / real_of_int c\<rceil>"
    by (rule steps_le_ceiling)
  with s fs ratio show ?thesis
    by simp
qed

section \<open>The counter past \<^verbatim>\<open>INT_MAX\<close>\<close>

text \<open>
  The loop with the wrap-around and the loop that stops at the overflow are the same on
  every run of at most \<open>INT_MAX\<close> passes: a result of \<open>walk_loop\<close> is the result of
  \<open>walk_loop_wrap\<close>, and a result of \<open>walk_loop_wrap\<close> reached within \<open>INT_MAX\<close> passes is
  the result of \<open>walk_loop\<close>.
\<close>

lemma wrap32_id: "- 2147483648 \<le> n \<Longrightarrow> n \<le> 2147483647 \<Longrightarrow> wrap32 n = n"
  by (simp add: wrap32_def)

lemma wrap32_add_left: "wrap32 (wrap32 n + k) = wrap32 (n + k)"
  by (simp add: wrap32_def mod_simps ac_simps)

lemma loop_body_wrap_eq:
  assumes "loop_body delta p runif s = Inr s1" "- 2147483648 \<le> w_tic s"
  shows "loop_body_wrap delta p runif s = s1"
  using assms by (auto simp: loop_body_Inr loop_body_wrap_def Let_def INT_MAX_def wrap32_id)

lemma loop_body_of_wrap:
  assumes "- 2147483648 \<le> w_tic s" "w_tic s < INT_MAX"
  shows "loop_body delta p runif s = Inr (loop_body_wrap delta p runif s)"
  using assms by (simp add: loop_body_Inr loop_body_wrap_def Let_def INT_MAX_def wrap32_id)

lemma walk_loop_wrap_stop:
  "\<not> loop_cond a (loop_body_wrap delta p runif s) \<Longrightarrow>
     walk_loop_wrap a delta p runif s = Some (loop_body_wrap delta p runif s)"
  by (subst walk_loop_wrap.simps) (simp add: Let_def)

lemma walk_loop_wrap_again:
  "loop_cond a (loop_body_wrap delta p runif s) \<Longrightarrow>
     walk_loop_wrap a delta p runif s = walk_loop_wrap a delta p runif (loop_body_wrap delta p runif s)"
  by (subst walk_loop_wrap.simps) (simp add: Let_def)

lemma walk_loop_wrap_counts:
  assumes "walk_loop_wrap a delta p runif s = Some s'"
  shows "w_drawn s < w_drawn s' \<and>
         w_tic s' = wrap32 (w_tic s + int (w_drawn s' - w_drawn s)) \<and>
         \<not> loop_cond a s'"
proof (rule walk_loop_wrap.raw_induct [where P = "\<lambda>a delta p runif s s'. w_drawn s < w_drawn s' \<and>
         w_tic s' = wrap32 (w_tic s + int (w_drawn s' - w_drawn s)) \<and> \<not> loop_cond a s'", OF _ assms])
  fix f a delta p runif s s'
  assume 1: "\<And>a delta p runif s y. f a delta p runif s = Some y \<Longrightarrow>
      w_drawn s < w_drawn y \<and> w_tic y = wrap32 (w_tic s + int (w_drawn y - w_drawn s)) \<and>
      \<not> loop_cond a y"
    "(let s' = loop_body_wrap delta p runif s
      in if loop_cond a s' then f a delta p runif s' else Some s') = Some s'"
  let ?s1 = "loop_body_wrap delta p runif s"
  have s1: "w_drawn ?s1 = Suc (w_drawn s)" "w_tic ?s1 = wrap32 (w_tic s + 1)"
    by (simp_all add: loop_body_wrap_def Let_def)
  show "w_drawn s < w_drawn s' \<and>
         w_tic s' = wrap32 (w_tic s + int (w_drawn s' - w_drawn s)) \<and> \<not> loop_cond a s'"
  proof (cases "loop_cond a ?s1")
    case True
    with 1(2) have "f a delta p runif ?s1 = Some s'"
      by (simp add: Let_def)
    then have ih: "w_drawn ?s1 < w_drawn s'"
      "w_tic s' = wrap32 (w_tic ?s1 + int (w_drawn s' - w_drawn ?s1))" "\<not> loop_cond a s'"
      using 1(1) by blast+
    from ih(1) s1(1) have d: "w_drawn s < w_drawn s'"
      "1 + int (w_drawn s' - w_drawn ?s1) = int (w_drawn s' - w_drawn s)"
      by simp_all
    from ih(2) have "w_tic s' = wrap32 (w_tic s + (1 + int (w_drawn s' - w_drawn ?s1)))"
      by (simp only: s1(2) wrap32_add_left add.assoc)
    with d ih(3) show ?thesis
      by simp
  next
    case False
    with 1(2) have "s' = ?s1"
      by (simp add: Let_def)
    with False s1 show ?thesis
      by simp
  qed
qed

lemma walk_loop_wrap_of_Inr:
  "walk_loop a delta p runif s = Inr s' \<Longrightarrow> - 2147483648 \<le> w_tic s \<Longrightarrow>
     walk_loop_wrap a delta p runif s = Some s'"
proof (induction a delta p runif s rule: walk_loop.induct)
  case (1 a delta p runif s)
  show ?case
  proof (cases "loop_body delta p runif s")
    case (Inl err)
    with "1.prems" show ?thesis
      by (simp add: walk_loop_overflow)
  next
    case (Inr s1)
    from Inr "1.prems"(2) have w: "loop_body_wrap delta p runif s = s1"
      by (rule loop_body_wrap_eq)
    from Inr "1.prems"(2) have tic: "- 2147483648 \<le> w_tic s1"
      by (auto simp: loop_body_Inr)
    show ?thesis
    proof (cases "loop_cond a s1")
      case True
      with Inr "1.prems"(1) have "walk_loop a delta p runif s1 = Inr s'"
        by (simp add: walk_loop_again)
      with "1.IH" [OF Inr True _ tic] have "walk_loop_wrap a delta p runif s1 = Some s'"
        by simp
      with True w show ?thesis
        by (simp add: walk_loop_wrap_again)
    next
      case False
      with Inr "1.prems"(1) have "s' = s1"
        by (simp add: walk_loop_stop)
      with False w show ?thesis
        by (simp add: walk_loop_wrap_stop)
    qed
  qed
qed

lemma walk_loop_of_wrap_aux:
  assumes "walk_loop_wrap a delta p runif s = Some s'"
  shows "w_drawn s < w_drawn s' \<and>
         (- 2147483648 \<le> w_tic s \<longrightarrow> w_tic s + int (w_drawn s' - w_drawn s) \<le> INT_MAX \<longrightarrow>
            walk_loop a delta p runif s = Inr s')"
proof (rule walk_loop_wrap.raw_induct [where P = "\<lambda>a delta p runif s s'. w_drawn s < w_drawn s' \<and>
         (- 2147483648 \<le> w_tic s \<longrightarrow> w_tic s + int (w_drawn s' - w_drawn s) \<le> INT_MAX \<longrightarrow>
            walk_loop a delta p runif s = Inr s')", OF _ assms])
  fix f a delta p runif s s'
  assume 1: "\<And>a delta p runif s y. f a delta p runif s = Some y \<Longrightarrow>
      w_drawn s < w_drawn y \<and>
      (- 2147483648 \<le> w_tic s \<longrightarrow> w_tic s + int (w_drawn y - w_drawn s) \<le> INT_MAX \<longrightarrow>
         walk_loop a delta p runif s = Inr y)"
    "(let s' = loop_body_wrap delta p runif s
      in if loop_cond a s' then f a delta p runif s' else Some s') = Some s'"
  let ?s1 = "loop_body_wrap delta p runif s"
  have s1: "w_drawn ?s1 = Suc (w_drawn s)" "w_tic ?s1 = wrap32 (w_tic s + 1)"
    by (simp_all add: loop_body_wrap_def Let_def)
  show "w_drawn s < w_drawn s' \<and>
         (- 2147483648 \<le> w_tic s \<longrightarrow> w_tic s + int (w_drawn s' - w_drawn s) \<le> INT_MAX \<longrightarrow>
            walk_loop a delta p runif s = Inr s')"
  proof (cases "loop_cond a ?s1")
    case True
    with 1(2) have "f a delta p runif ?s1 = Some s'"
      by (simp add: Let_def)
    then have ih: "w_drawn ?s1 < w_drawn s'"
      "- 2147483648 \<le> w_tic ?s1 \<longrightarrow> w_tic ?s1 + int (w_drawn s' - w_drawn ?s1) \<le> INT_MAX \<longrightarrow>
         walk_loop a delta p runif ?s1 = Inr s'"
      using 1(1) by blast+
    from ih(1) s1(1) have d: "w_drawn s < w_drawn s'"
      by simp
    have "walk_loop a delta p runif s = Inr s'"
      if r: "- 2147483648 \<le> w_tic s" and b: "w_tic s + int (w_drawn s' - w_drawn s) \<le> INT_MAX"
    proof -
      from ih(1) s1(1) b have lt: "w_tic s < INT_MAX"
        by simp
      with r have body: "loop_body delta p runif s = Inr ?s1"
        by (intro loop_body_of_wrap)
      from r lt have t1: "w_tic ?s1 = w_tic s + 1"
        by (simp add: s1(2) wrap32_id INT_MAX_def)
      from ih(1) s1(1) b have "w_tic ?s1 + int (w_drawn s' - w_drawn ?s1) \<le> INT_MAX"
        by (simp add: t1)
      moreover from r t1 have "- 2147483648 \<le> w_tic ?s1"
        by simp
      ultimately have "walk_loop a delta p runif ?s1 = Inr s'"
        using ih(2) by blast
      with body True show ?thesis
        by (simp add: walk_loop_again)
    qed
    with d show ?thesis
      by blast
  next
    case False
    with 1(2) have eq: "s' = ?s1"
      by (simp add: Let_def)
    have "walk_loop a delta p runif s = Inr s'"
      if r: "- 2147483648 \<le> w_tic s" and b: "w_tic s + int (w_drawn s' - w_drawn s) \<le> INT_MAX"
    proof -
      from b eq s1(1) have "w_tic s < INT_MAX"
        by simp
      with r have "loop_body delta p runif s = Inr ?s1"
        by (intro loop_body_of_wrap)
      with False eq show ?thesis
        by (simp add: walk_loop_stop)
    qed
    with eq s1 show ?thesis
      by simp
  qed
qed

lemma walk_loop_of_wrap:
  assumes "walk_loop_wrap a delta p runif s = Some s'"
    and "- 2147483648 \<le> w_tic s" "w_tic s + int (w_drawn s' - w_drawn s) \<le> INT_MAX"
  shows "walk_loop a delta p runif s = Inr s'"
  using walk_loop_of_wrap_aux [OF assms(1)] assms(2,3) by blast

lemma final_state_wrap_of_Inr:
  "final_state b a v t_eps runif = Inr s \<Longrightarrow> final_state_wrap b a v t_eps runif = Some s"
  unfolding final_state_def final_state_wrap_def by (rule walk_loop_wrap_of_Inr) simp_all

lemma final_state_of_wrap:
  assumes "final_state_wrap b a v t_eps runif = Some s" "int (w_drawn s) \<le> INT_MAX"
  shows "final_state b a v t_eps runif = Inr s"
  using assms unfolding final_state_def final_state_wrap_def
  by (intro walk_loop_of_wrap) simp_all

lemma random_walk_wrap_final:
  "random_walk_wrap b a v t_eps runif =
     (case final_state_wrap b a v t_eps runif of None \<Rightarrow> None | Some s \<Rightarrow> Some (report a t_eps s))"
  by (simp add: random_walk_wrap_def final_state_wrap_def Let_def)

lemma final_state_wrap_counts:
  assumes "final_state_wrap b a v t_eps runif = Some s"
  shows "1 \<le> w_drawn s" "w_tic s = wrap32 (int (w_drawn s))" "\<not> loop_cond a s"
  using walk_loop_wrap_counts [OF assms [unfolded final_state_wrap_def]] by simp_all

lemma random_walk_wrap_of_Inr:
  assumes "random_walk b a v t_eps runif = Inr out"
  shows "random_walk_wrap b a v t_eps runif = Some out"
proof -
  from assms obtain s where "final_state b a v t_eps runif = Inr s" "out = report a t_eps s"
    by (auto dest: random_walk_InrD)
  then show ?thesis
    by (simp add: random_walk_wrap_final final_state_wrap_of_Inr)
qed

lemma walk_loop_tic_nonneg:
  assumes "walk_loop a delta p runif s = Inr s'"
  shows "w_tic s \<le> w_tic s'"
  using walk_loop_counts [OF assms] by simp

lemma overflow_of_wrap:
  assumes "final_state_wrap b a v t_eps runif = Some s" "w_tic s < 0"
  shows "final_state b a v t_eps runif = Inl SignedOverflow"
    "random_walk b a v t_eps runif = Inl SignedOverflow"
proof -
  show 1: "final_state b a v t_eps runif = Inl SignedOverflow"
  proof (cases "final_state b a v t_eps runif")
    case (Inl err)
    then show ?thesis
      by (cases err) simp
  next
    case (Inr s')
    then have "final_state_wrap b a v t_eps runif = Some s'"
      by (rule final_state_wrap_of_Inr)
    with assms(1) have "s' = s"
      by simp
    moreover from Inr have "0 \<le> w_tic s'"
      unfolding final_state_def by (auto dest: walk_loop_tic_nonneg)
    ultimately show ?thesis
      using assms(2) by simp
  qed
  then show "random_walk b a v t_eps runif = Inl SignedOverflow"
    by (simp add: random_walk_final)
qed

lemma time_ge_t_eps:
  assumes "is_double t_eps" "dlt d_zero t_eps" "1 \<le> w_tic s"
  shows "dle t_eps (time (report a t_eps s))"
proof -
  from assms(3) have "1 \<le> rval (d_of_int (w_tic s))"
    by (rule d_of_int_ge_one)
  with assms(1,2) have "dle t_eps (dmul (d_of_int (w_tic s)) t_eps)"
    by (intro dmul_ge d_of_int_facts)
  then show ?thesis
    by (simp add: report_def)
qed

text \<open>
  On a grid of multiples of \<open>2 ^ g\<close> the loop with the wrap-around returns after the first
  pass that takes the position out of \<open>(0, ka)\<close>, however many passes that takes.
\<close>

lemma grid_wrap_up:
  assumes g: "- 1074 \<le> g" "g \<le> 971" and c: "0 < c" and ka: "ka + c < 2 ^ 53"
    and up: "\<forall>i. dlt (runif i) p"
  shows "0 \<le> k \<Longrightarrow> k \<le> ka \<Longrightarrow>
    \<exists>s' m. walk_loop_wrap (fl ka g) (fl c g) p runif \<lparr>w_x = fl k g, w_tic = n, w_drawn = d\<rparr> = Some s' \<and>
      0 < m \<and> w_x s' = fl (k + int m * c) g \<and> w_drawn s' = d + m \<and>
      ka \<le> k + int m * c \<and> (m = 1 \<or> k + (int m - 1) * c < ka)"
proof (induction "nat (ka - k)" arbitrary: k n d rule: less_induct)
  case less
  let ?s = "\<lparr>w_x = fl k g, w_tic = n, w_drawn = d\<rparr>"
  let ?s1 = "\<lparr>w_x = fl (k + c) g, w_tic = wrap32 (n + 1), w_drawn = Suc d\<rparr>"
  from less.prems c ka have bounds: "\<bar>k\<bar> < 2 ^ 53" "\<bar>c\<bar> < 2 ^ 53" "\<bar>k + c\<bar> < 2 ^ 53" "\<bar>ka\<bar> < 2 ^ 53"
    by simp_all
  from up have body: "loop_body_wrap (fl c g) p runif ?s = ?s1"
    by (simp add: loop_body_wrap_def dadd_grid [OF g bounds(1,2)])
  have cond: "loop_cond (fl ka g) ?s1 \<longleftrightarrow> k + c < ka"
    using less.prems c bounds
    by (simp add: loop_cond_def d_zero_grid [of g] dlt_grid [OF g])
  show ?case
  proof (cases "k + c < ka")
    case True
    from True c less.prems have "nat (ka - (k + c)) < nat (ka - k)"
      by simp
    moreover from True less.prems c have "0 \<le> k + c" "k + c \<le> ka"
      by simp_all
    ultimately have "\<exists>s' m. walk_loop_wrap (fl ka g) (fl c g) p runif ?s1 = Some s' \<and>
      0 < m \<and> w_x s' = fl (k + c + int m * c) g \<and> w_drawn s' = Suc d + m \<and>
      ka \<le> k + c + int m * c \<and> (m = 1 \<or> k + c + (int m - 1) * c < ka)"
      by (rule less.hyps)
    then obtain s' m where s':
      "walk_loop_wrap (fl ka g) (fl c g) p runif ?s1 = Some s'" "0 < m"
      "w_x s' = fl (k + c + int m * c) g" "w_drawn s' = Suc d + m"
      "ka \<le> k + c + int m * c" "m = 1 \<or> k + c + (int m - 1) * c < ka"
      by (elim exE conjE)
    have e: "k + c + int m * c = k + int (Suc m) * c"
      by (simp add: distrib_right)
    from body cond True s'(1)
    have "walk_loop_wrap (fl ka g) (fl c g) p runif ?s = Some s'"
      by (simp add: walk_loop_wrap_again)
    moreover have "0 < Suc m"
      by simp
    moreover from s'(3) have "w_x s' = fl (k + int (Suc m) * c) g"
      by (simp only: e)
    moreover from s'(4) have "w_drawn s' = d + Suc m"
      by simp
    moreover from s'(5) have "ka \<le> k + int (Suc m) * c"
      by (simp only: e)
    moreover have "k + (int (Suc m) - 1) * c < ka"
      using s'(6)
    proof
      assume "m = 1"
      with True show ?thesis by simp
    next
      assume "k + c + (int m - 1) * c < ka"
      moreover have "k + c + (int m - 1) * c = k + int m * c"
        by (simp add: left_diff_distrib)
      ultimately show ?thesis
        by simp
    qed
    ultimately show ?thesis
      by blast
  next
    case False
    with body cond have "walk_loop_wrap (fl ka g) (fl c g) p runif ?s = Some ?s1"
      by (simp add: walk_loop_wrap_stop)
    moreover from False have "ka \<le> k + int 1 * c"
      by simp
    ultimately show ?thesis
      by (intro exI [of _ ?s1] exI [of _ "1::nat"]) simp
  qed
qed

lemma grid_wrap_down:
  assumes g: "- 1074 \<le> g" "g \<le> 971" and c: "0 < c" and ka: "0 \<le> ka" "ka + c < 2 ^ 53"
    and down: "\<forall>i. \<not> dlt (runif i) p"
  shows "0 \<le> k \<Longrightarrow> k \<le> ka \<Longrightarrow>
    \<exists>s' m. walk_loop_wrap (fl ka g) (fl c g) p runif \<lparr>w_x = fl k g, w_tic = n, w_drawn = d\<rparr> = Some s' \<and>
      0 < m \<and> w_x s' = fl (k - int m * c) g \<and> w_drawn s' = d + m \<and>
      k - int m * c \<le> 0 \<and> (m = 1 \<or> 0 < k - (int m - 1) * c)"
proof (induction "nat k" arbitrary: k n d rule: less_induct)
  case less
  let ?s = "\<lparr>w_x = fl k g, w_tic = n, w_drawn = d\<rparr>"
  let ?s1 = "\<lparr>w_x = fl (k - c) g, w_tic = wrap32 (n + 1), w_drawn = Suc d\<rparr>"
  from less.prems c ka have bounds: "\<bar>k\<bar> < 2 ^ 53" "\<bar>c\<bar> < 2 ^ 53" "\<bar>k - c\<bar> < 2 ^ 53" "\<bar>ka\<bar> < 2 ^ 53"
    by simp_all
  from down have body: "loop_body_wrap (fl c g) p runif ?s = ?s1"
    by (simp add: loop_body_wrap_def dsub_grid [OF g bounds(1,2)])
  have cond: "loop_cond (fl ka g) ?s1 \<longleftrightarrow> 0 < k - c"
    using less.prems c bounds
    by (simp add: loop_cond_def d_zero_grid [of g] dlt_grid [OF g])
  show ?case
  proof (cases "0 < k - c")
    case True
    from True c less.prems have "nat (k - c) < nat k"
      by simp
    moreover from True less.prems c have "0 \<le> k - c" "k - c \<le> ka"
      by simp_all
    ultimately have "\<exists>s' m. walk_loop_wrap (fl ka g) (fl c g) p runif ?s1 = Some s' \<and>
      0 < m \<and> w_x s' = fl (k - c - int m * c) g \<and> w_drawn s' = Suc d + m \<and>
      k - c - int m * c \<le> 0 \<and> (m = 1 \<or> 0 < k - c - (int m - 1) * c)"
      by (rule less.hyps)
    then obtain s' m where s':
      "walk_loop_wrap (fl ka g) (fl c g) p runif ?s1 = Some s'" "0 < m"
      "w_x s' = fl (k - c - int m * c) g" "w_drawn s' = Suc d + m"
      "k - c - int m * c \<le> 0" "m = 1 \<or> 0 < k - c - (int m - 1) * c"
      by (elim exE conjE)
    have e: "k - c - int m * c = k - int (Suc m) * c"
      by (simp add: distrib_right)
    from body cond True s'(1)
    have "walk_loop_wrap (fl ka g) (fl c g) p runif ?s = Some s'"
      by (simp add: walk_loop_wrap_again)
    moreover have "0 < Suc m"
      by simp
    moreover from s'(3) have "w_x s' = fl (k - int (Suc m) * c) g"
      by (simp only: e)
    moreover from s'(4) have "w_drawn s' = d + Suc m"
      by simp
    moreover from s'(5) have "k - int (Suc m) * c \<le> 0"
      by (simp only: e)
    moreover have "0 < k - (int (Suc m) - 1) * c"
      using s'(6)
    proof
      assume "m = 1"
      with True show ?thesis by simp
    next
      assume "0 < k - c - (int m - 1) * c"
      moreover have "k - c - (int m - 1) * c = k - int m * c"
        by (simp add: left_diff_distrib)
      ultimately show ?thesis
        by simp
    qed
    ultimately show ?thesis
      by blast
  next
    case False
    with body cond have "walk_loop_wrap (fl ka g) (fl c g) p runif ?s = Some ?s1"
      by (simp add: walk_loop_wrap_stop)
    moreover from False have "k - int 1 * c \<le> 0"
      by simp
    ultimately show ?thesis
      by (intro exI [of _ ?s1] exI [of _ "1::nat"]) simp
  qed
qed

section \<open>Runs by hand\<close>

text \<open>
  The values below are computed with the code equations; the simplifier leaves the operations
  on finite doubles alone from here on.
\<close>

declare dsqrt.simps(1) [simp del] dadd.simps(1) [simp del] dmul.simps(1) [simp del]
  dlt.simps(1) [simp del] deq.simps(1) [simp del]

text \<open>
  From \<open>b = 1/2\<close>, \<open>a = 1\<close>, \<open>v = 0\<close>, \<open>t_eps = 1/16\<close> with every draw \<open>1/4\<close>:
  \<open>delta = 1/4\<close> and \<open>p = 1/2\<close>, so each step goes up, and the second one lands on \<open>a\<close>.
\<close>

lemma quarter_delta: "dsqrt (fl 1 (- 4)) = fl 1 (- 2)"
  by code_simp

lemma quarter_p: "dmul d_half (dadd d_one (dmul d_zero (fl 1 (- 2)))) = d_half"
  by code_simp

lemma quarter_x0: "dmul d_one d_half = d_half"
  by code_simp

lemma quarter_loop:
  "walk_loop d_one (fl 1 (- 2)) d_half (\<lambda>i. fl 1 (- 2)) \<lparr>w_x = d_half, w_tic = 0, w_drawn = 0\<rparr> =
     Inr \<lparr>w_x = d_one, w_tic = 2, w_drawn = 2\<rparr>"
  by code_simp

lemma quarter_trace:
  "walk_trace d_one (fl 1 (- 2)) d_half (\<lambda>i. fl 1 (- 2)) \<lparr>w_x = d_half, w_tic = 0, w_drawn = 0\<rparr> =
     [\<lparr>w_x = fl 3 (- 2), w_tic = 1, w_drawn = 1\<rparr>, \<lparr>w_x = d_one, w_tic = 2, w_drawn = 2\<rparr>]"
  by code_simp

lemma quarter_final:
  "final_state d_half d_one d_zero (fl 1 (- 4)) (\<lambda>i. fl 1 (- 2)) =
     Inr \<lparr>w_x = d_one, w_tic = 2, w_drawn = 2\<rparr>"
  unfolding final_state_def quarter_delta quarter_p quarter_x0 by (rule quarter_loop)

lemma quarter_trajectory:
  "trajectory d_half d_one d_zero (fl 1 (- 4)) (\<lambda>i. fl 1 (- 2)) =
     [\<lparr>w_x = fl 3 (- 2), w_tic = 1, w_drawn = 1\<rparr>, \<lparr>w_x = d_one, w_tic = 2, w_drawn = 2\<rparr>]"
  unfolding trajectory_def quarter_delta quarter_p quarter_x0 by (rule quarter_trace)

lemma quarter_report:
  "report d_one (fl 1 (- 4)) \<lparr>w_x = d_one, w_tic = 2, w_drawn = 2\<rparr> =
     \<lparr>choice = 0, time = fl 1 (- 3)\<rparr>"
  by code_simp

lemma quarter_run:
  "random_walk d_half d_one d_zero (fl 1 (- 4)) (\<lambda>i. fl 1 (- 2)) =
     Inr \<lparr>choice = 0, time = fl 1 (- 3)\<rparr>"
  by (simp add: random_walk_final quarter_final quarter_report)

text \<open>
  With \<open>t_eps = 1\<close> and \<open>v = 0\<close>, \<open>delta = 1\<close> and \<open>p = 1/2\<close>. From \<open>b = 1/2\<close>, \<open>a = 1\<close> one
  step up ends at \<open>3/2\<close>.
\<close>

lemma unit_delta: "dsqrt d_one = d_one"
  by code_simp

lemma unit_p: "dmul d_half (dadd d_one (dmul d_zero d_one)) = d_half"
proof -
  have "dmul d_zero d_one = d_zero"
    by code_simp
  moreover have "dmul d_half d_one = d_half"
    by code_simp
  ultimately show ?thesis
    by (simp add: dadd_zero_right is_double_d_one)
qed

lemma half_up_loop:
  "walk_loop d_one d_one d_half (\<lambda>i. fl 1 (- 2)) \<lparr>w_x = d_half, w_tic = 0, w_drawn = 0\<rparr> =
     Inr \<lparr>w_x = fl 3 (- 1), w_tic = 1, w_drawn = 1\<rparr>"
  by code_simp

lemma half_up_final:
  "final_state d_half d_one d_zero d_one (\<lambda>i. fl 1 (- 2)) =
     Inr \<lparr>w_x = fl 3 (- 1), w_tic = 1, w_drawn = 1\<rparr>"
  unfolding final_state_def unit_delta unit_p quarter_x0 by (rule half_up_loop)

lemma half_up_run:
  "random_walk d_half d_one d_zero d_one (\<lambda>i. fl 1 (- 2)) = Inr \<lparr>choice = 1, time = d_one\<rparr>"
proof -
  have "dlt d_one (fl 3 (- 1))"
    by code_simp
  then show ?thesis
    by (simp add: random_walk_final half_up_final report_one is_double_d_one)
qed

text \<open>Every draw equal to \<open>p = 1/2\<close>: from \<open>1/2\<close> the walk goes down to \<open>1/4\<close> and to 0.\<close>

lemma equal_trace:
  "walk_trace d_one (fl 1 (- 2)) d_half (\<lambda>i. d_half) \<lparr>w_x = d_half, w_tic = 0, w_drawn = 0\<rparr> =
     [\<lparr>w_x = fl 1 (- 2), w_tic = 1, w_drawn = 1\<rparr>, \<lparr>w_x = d_zero, w_tic = 2, w_drawn = 2\<rparr>]"
  by code_simp

text \<open>
  A start on the lower barrier: \<open>b = 0\<close>, \<open>a = 1\<close>, \<open>t_eps = 1/16\<close> and a draw of \<open>3/4\<close>; one
  step down ends at \<open>-1/4\<close>.
\<close>

lemma barrier_x0: "dmul d_one d_zero = d_zero"
  by code_simp

lemma barrier_loop:
  "walk_loop d_one (fl 1 (- 2)) d_half (\<lambda>i. fl 3 (- 2)) \<lparr>w_x = d_zero, w_tic = 0, w_drawn = 0\<rparr> =
     Inr \<lparr>w_x = fl (- 1) (- 2), w_tic = 1, w_drawn = 1\<rparr>"
  by code_simp

lemma barrier_final:
  "final_state d_zero d_one d_zero (fl 1 (- 4)) (\<lambda>i. fl 3 (- 2)) =
     Inr \<lparr>w_x = fl (- 1) (- 2), w_tic = 1, w_drawn = 1\<rparr>"
  unfolding final_state_def quarter_delta quarter_p barrier_x0 by (rule barrier_loop)

lemma barrier_report:
  "report d_one (fl 1 (- 4)) \<lparr>w_x = fl (- 1) (- 2), w_tic = 1, w_drawn = n\<rparr> =
     \<lparr>choice = 0, time = fl 1 (- 4)\<rparr>"
proof -
  have "\<not> dlt d_one (fl (- 1) (- 2))"
    by code_simp
  moreover have "dmul (d_of_int 1) (fl 1 (- 4)) = fl 1 (- 4)"
    by code_simp
  ultimately show ?thesis
    by (simp add: report_def)
qed

lemma barrier_run:
  "random_walk d_zero d_one d_zero (fl 1 (- 4)) (\<lambda>i. fl 3 (- 2)) =
     Inr \<lparr>choice = 0, time = fl 1 (- 4)\<rparr>"
  by (simp add: random_walk_final barrier_final barrier_report)

text \<open>
  A start just above the lower barrier: \<open>a = 1\<close>, \<open>b = 2 ^ -1000\<close>, \<open>t_eps = 1\<close>; a step
  down computes \<open>2 ^ -1000 - 1\<close>, which rounds to \<open>-1\<close>.
\<close>

lemma tiny_x0: "dmul d_one (fl 1 (- 1000)) = fl 1 (- 1000)"
  by code_simp

lemma tiny_loop:
  "walk_loop d_one d_one d_half (\<lambda>i. fl 3 (- 2)) \<lparr>w_x = fl 1 (- 1000), w_tic = 0, w_drawn = 0\<rparr> =
     Inr \<lparr>w_x = fl (- 1) 0, w_tic = 1, w_drawn = 1\<rparr>"
  by code_simp

lemma tiny_final:
  "final_state (fl 1 (- 1000)) d_one d_zero d_one (\<lambda>i. fl 3 (- 2)) =
     Inr \<lparr>w_x = fl (- 1) 0, w_tic = 1, w_drawn = 1\<rparr>"
  unfolding final_state_def unit_delta unit_p tiny_x0 by (rule tiny_loop)

text \<open>
  Above the interval: \<open>a = 2 ^ 53\<close> and \<open>b = 1 + 2 ^ -52\<close> start the walk at \<open>2 ^ 53 + 2\<close>, the
  double next to \<open>a\<close>; with \<open>delta = 1\<close> a step down computes \<open>2 ^ 53 + 1\<close>, which lies
  halfway between two doubles and rounds to \<open>a\<close>.
\<close>

lemma tie_x0: "dmul (fl 1 53) (fl 4503599627370497 (- 52)) = fl 4503599627370497 1"
  by code_simp

lemma tie_above: "dlt (dadd (fl 1 53) d_one) (fl 4503599627370497 1)"
  by code_simp

lemma tie_loop:
  "walk_loop (fl 1 53) d_one d_half (\<lambda>i. fl 3 (- 2))
     \<lparr>w_x = fl 4503599627370497 1, w_tic = 0, w_drawn = 0\<rparr> =
   Inr \<lparr>w_x = fl 1 53, w_tic = 1, w_drawn = 1\<rparr>"
  by code_simp

lemma tie_final:
  "final_state (fl 4503599627370497 (- 52)) (fl 1 53) d_zero d_one (\<lambda>i. fl 3 (- 2)) =
     Inr \<lparr>w_x = fl 1 53, w_tic = 1, w_drawn = 1\<rparr>"
  unfolding final_state_def unit_delta unit_p tie_x0 by (rule tie_loop)

lemma tie_run:
  "random_walk (fl 4503599627370497 (- 52)) (fl 1 53) d_zero d_one (\<lambda>i. fl 3 (- 2)) =
     Inr \<lparr>choice = 0, time = d_one\<rparr>"
proof -
  have "\<not> dlt (fl 1 53) (fl 1 53)"
    by code_simp
  then show ?thesis
    by (simp add: random_walk_final tie_final report_one is_double_d_one)
qed

text \<open>
  Below the interval with a negative barrier: \<open>a = -4\<close> and \<open>b = 1/2\<close> start the walk at
  \<open>-2\<close>, below \<open>-delta = -1\<close>; one step up ends the loop at \<open>-1\<close>, which is above \<open>a\<close>.
\<close>

lemma negative_x0: "dmul (fl (- 4) 0) d_half = fl (- 2) 0"
  by code_simp

lemma negative_below: "dlt (fl (- 2) 0) (dneg d_one)"
  by code_simp

lemma negative_loop:
  "walk_loop (fl (- 4) 0) d_one d_half (\<lambda>i. fl 1 (- 2))
     \<lparr>w_x = fl (- 2) 0, w_tic = 0, w_drawn = 0\<rparr> =
   Inr \<lparr>w_x = fl (- 1) 0, w_tic = 1, w_drawn = 1\<rparr>"
  by code_simp

lemma negative_final:
  "final_state d_half (fl (- 4) 0) d_zero d_one (\<lambda>i. fl 1 (- 2)) =
     Inr \<lparr>w_x = fl (- 1) 0, w_tic = 1, w_drawn = 1\<rparr>"
  unfolding final_state_def unit_delta unit_p negative_x0 by (rule negative_loop)

lemma negative_run:
  "random_walk d_half (fl (- 4) 0) d_zero d_one (\<lambda>i. fl 1 (- 2)) =
     Inr \<lparr>choice = 1, time = d_one\<rparr>"
proof -
  have "dlt (fl (- 4) 0) (fl (- 1) 0)"
    by code_simp
  then show ?thesis
    by (simp add: random_walk_final negative_final report_one is_double_d_one)
qed

lemma positive_x0: "dmul (fl 4 0) (fl (- 1) (- 1)) = fl (- 2) 0"
  by code_simp

lemma one_x0: "dmul d_one d_one = d_one"
  by code_simp

text \<open>
  From \<open>b = 0\<close>, \<open>a = 1\<close>, \<open>v = 10\<close> and \<open>t_eps\<close> the double nearest to \<open>0.01\<close>, with every
  draw \<open>1/2\<close>: eleven steps up. With \<open>v = -10\<close> instead, \<open>p = 0\<close>.
\<close>

lemma tenth_delta: "dsqrt (Fin 5764607523034235 (- 59)) = Fin 7205759403792794 (- 56)"
  by code_simp

lemma tenth_p: "dmul d_half (dadd d_one (dmul (fl 10 0) (Fin 7205759403792794 (- 56)))) = d_one"
  by code_simp

lemma down_p: "dmul d_half (dadd d_one (dmul (fl (- 10) 0) (Fin 7205759403792794 (- 56)))) = d_zero"
  by code_simp

lemma tenth_trace:
  "walk_trace d_one (Fin 7205759403792794 (- 56)) d_one (\<lambda>i. d_half)
     \<lparr>w_x = d_zero, w_tic = 0, w_drawn = 0\<rparr> =
   [\<lparr>w_x = Fin 7205759403792794 (- 56), w_tic = 1, w_drawn = 1\<rparr>,
    \<lparr>w_x = Fin 7205759403792794 (- 55), w_tic = 2, w_drawn = 2\<rparr>,
    \<lparr>w_x = Fin 5404319552844596 (- 54), w_tic = 3, w_drawn = 3\<rparr>,
    \<lparr>w_x = Fin 7205759403792794 (- 54), w_tic = 4, w_drawn = 4\<rparr>,
    \<lparr>w_x = Fin 4503599627370496 (- 53), w_tic = 5, w_drawn = 5\<rparr>,
    \<lparr>w_x = Fin 5404319552844595 (- 53), w_tic = 6, w_drawn = 6\<rparr>,
    \<lparr>w_x = Fin 6305039478318694 (- 53), w_tic = 7, w_drawn = 7\<rparr>,
    \<lparr>w_x = Fin 7205759403792793 (- 53), w_tic = 8, w_drawn = 8\<rparr>,
    \<lparr>w_x = Fin 8106479329266892 (- 53), w_tic = 9, w_drawn = 9\<rparr>,
    \<lparr>w_x = Fin 9007199254740991 (- 53), w_tic = 10, w_drawn = 10\<rparr>,
    \<lparr>w_x = Fin 4953959590107545 (- 52), w_tic = 11, w_drawn = 11\<rparr>]"
  by code_simp

lemma tenth_trajectory:
  "trajectory d_zero d_one (fl 10 0) (Fin 5764607523034235 (- 59)) (\<lambda>i. d_half) =
   [\<lparr>w_x = Fin 7205759403792794 (- 56), w_tic = 1, w_drawn = 1\<rparr>,
    \<lparr>w_x = Fin 7205759403792794 (- 55), w_tic = 2, w_drawn = 2\<rparr>,
    \<lparr>w_x = Fin 5404319552844596 (- 54), w_tic = 3, w_drawn = 3\<rparr>,
    \<lparr>w_x = Fin 7205759403792794 (- 54), w_tic = 4, w_drawn = 4\<rparr>,
    \<lparr>w_x = Fin 4503599627370496 (- 53), w_tic = 5, w_drawn = 5\<rparr>,
    \<lparr>w_x = Fin 5404319552844595 (- 53), w_tic = 6, w_drawn = 6\<rparr>,
    \<lparr>w_x = Fin 6305039478318694 (- 53), w_tic = 7, w_drawn = 7\<rparr>,
    \<lparr>w_x = Fin 7205759403792793 (- 53), w_tic = 8, w_drawn = 8\<rparr>,
    \<lparr>w_x = Fin 8106479329266892 (- 53), w_tic = 9, w_drawn = 9\<rparr>,
    \<lparr>w_x = Fin 9007199254740991 (- 53), w_tic = 10, w_drawn = 10\<rparr>,
    \<lparr>w_x = Fin 4953959590107545 (- 52), w_tic = 11, w_drawn = 11\<rparr>]"
  unfolding trajectory_def tenth_delta tenth_p barrier_x0 by (rule tenth_trace)

lemma tenth_loop:
  "walk_loop d_one (Fin 7205759403792794 (- 56)) d_one (\<lambda>i. d_half)
     \<lparr>w_x = d_zero, w_tic = 0, w_drawn = 0\<rparr> =
   Inr \<lparr>w_x = Fin 4953959590107545 (- 52), w_tic = 11, w_drawn = 11\<rparr>"
  by code_simp

lemma tenth_final:
  "final_state d_zero d_one (fl 10 0) (Fin 5764607523034235 (- 59)) (\<lambda>i. d_half) =
     Inr \<lparr>w_x = Fin 4953959590107545 (- 52), w_tic = 11, w_drawn = 11\<rparr>"
  unfolding final_state_def tenth_delta tenth_p barrier_x0 by (rule tenth_loop)

lemma tenth_ceiling: "\<lceil>rval d_one / rval (Fin 7205759403792794 (- 56))\<rceil> = 10"
proof -
  have "rval d_one / rval (Fin 7205759403792794 (- 56)) = 72057594037927936 / 7205759403792794"
    by (simp add: exact_def)
  then show ?thesis
    by (simp add: ceiling_unique)
qed

text \<open>
  From \<open>b = 0\<close>, \<open>a = 1\<close>, \<open>v = 4\<close> and \<open>t_eps = 1/16\<close>, with every draw \<open>1/2\<close>: \<open>p = 1\<close>
  and four steps of \<open>1/4\<close> end on \<open>a\<close>.
\<close>

lemma fourth_p: "dmul d_half (dadd d_one (dmul (fl 4 0) (fl 1 (- 2)))) = d_one"
  by code_simp

lemma fourth_loop:
  "walk_loop d_one (fl 1 (- 2)) d_one (\<lambda>i. d_half) \<lparr>w_x = d_zero, w_tic = 0, w_drawn = 0\<rparr> =
     Inr \<lparr>w_x = d_one, w_tic = 4, w_drawn = 4\<rparr>"
  by code_simp

lemma fourth_final:
  "final_state d_zero d_one (fl 4 0) (fl 1 (- 4)) (\<lambda>i. d_half) =
     Inr \<lparr>w_x = d_one, w_tic = 4, w_drawn = 4\<rparr>"
  unfolding final_state_def quarter_delta fourth_p barrier_x0 by (rule fourth_loop)

lemma fourth_ceiling: "\<lceil>rval d_one / rval (fl 1 (- 2))\<rceil> = 4"
proof -
  have "fl 1 (- 2) = Fin 4503599627370496 (- 54)"
    by code_simp
  then have "rval d_one / rval (fl 1 (- 2)) = 4"
    by (simp add: d_one_def exact_def power_int_minus)
  then show ?thesis
    by simp
qed

text \<open>The runs above, by the loop with the wrap-around.\<close>

lemma barrier_wrap_final:
  "final_state_wrap d_zero d_one d_zero (fl 1 (- 4)) (\<lambda>i. fl 3 (- 2)) =
     Some \<lparr>w_x = fl (- 1) (- 2), w_tic = 1, w_drawn = 1\<rparr>"
  using barrier_final by (rule final_state_wrap_of_Inr)

lemma barrier_wrap_run:
  "random_walk_wrap d_zero d_one d_zero (fl 1 (- 4)) (\<lambda>i. fl 3 (- 2)) =
     Some \<lparr>choice = 0, time = fl 1 (- 4)\<rparr>"
  using barrier_run by (rule random_walk_wrap_of_Inr)

lemma quarter_wrap_final:
  "final_state_wrap d_half d_one d_zero (fl 1 (- 4)) (\<lambda>i. fl 1 (- 2)) =
     Some \<lparr>w_x = d_one, w_tic = 2, w_drawn = 2\<rparr>"
  using quarter_final by (rule final_state_wrap_of_Inr)

lemma quarter_wrap_run:
  "random_walk_wrap d_half d_one d_zero (fl 1 (- 4)) (\<lambda>i. fl 1 (- 2)) =
     Some \<lparr>choice = 0, time = fl 1 (- 3)\<rparr>"
  using quarter_run by (rule random_walk_wrap_of_Inr)

text \<open>
  Two runs of \<open>2 ^ 31\<close> passes, with \<open>a = 2 ^ 29\<close>, \<open>t_eps = 1/16\<close> and every draw \<open>1/2\<close>: up
  from \<open>b = 0\<close> with \<open>v = 4\<close> and \<open>p = 1\<close>, and down from \<open>b = 1\<close> with \<open>v = -4\<close> and
  \<open>p = 0\<close>. Every position is a multiple of \<open>1/4\<close> and no step rounds. After \<open>INT_MAX\<close>
  passes the position is still inside, the next pass increments \<^verbatim>\<open>tic\<close> at \<^verbatim>\<open>INT_MAX\<close>
  and lands on the barrier.
\<close>

lemma over_x0: "dmul (fl 2147483648 (- 2)) d_zero = d_zero"
  by code_simp

lemma over_x1: "dmul (fl 2147483648 (- 2)) d_one = fl 2147483648 (- 2)"
  by code_simp

lemma over_down_p: "dmul d_half (dadd d_one (dmul (fl (- 4) 0) (fl 1 (- 2)))) = d_zero"
  by code_simp

lemma over_time: "dmul (d_of_int (- 2147483648)) (fl 1 (- 4)) = fl (- 134217728) 0"
  by code_simp

lemma over_passes_time: "dmul (d_of_int 2147483648) (fl 1 (- 4)) = fl 134217728 0"
  by code_simp

lemma over_up_final:
  "final_state_wrap d_zero (fl 2147483648 (- 2)) (fl 4 0) (fl 1 (- 4)) (\<lambda>i. d_half) =
     Some \<lparr>w_x = fl 2147483648 (- 2), w_tic = - 2147483648, w_drawn = 2147483648\<rparr>"
proof -
  let ?run = "walk_loop_wrap (fl 2147483648 (- 2)) (fl 1 (- 2)) d_one (\<lambda>i. d_half)
    \<lparr>w_x = fl 0 (- 2), w_tic = 0, w_drawn = 0\<rparr>"
  have "dlt d_half d_one"
    by code_simp
  then have up: "\<forall>i::nat. dlt d_half d_one"
    by simp
  have "\<exists>s' m. ?run = Some s' \<and> 0 < m \<and> w_x s' = fl (0 + int m * 1) (- 2) \<and> w_drawn s' = 0 + m \<and>
      2147483648 \<le> 0 + int m * 1 \<and> (m = 1 \<or> 0 + (int m - 1) * 1 < 2147483648)"
    by (rule grid_wrap_up [OF _ _ _ _ up]) simp_all
  then obtain s' m where s': "?run = Some s'" "w_x s' = fl (int m) (- 2)" "w_drawn s' = m"
    "2147483648 \<le> int m" "m = 1 \<or> int m - 1 < 2147483648"
    by auto
  from s'(4,5) have m: "m = 2147483648"
    by auto
  from walk_loop_wrap_counts [OF s'(1)] s'(3) m have "w_tic s' = wrap32 2147483648"
    by simp
  then have "w_tic s' = - 2147483648"
    by (simp add: wrap32_def)
  with s'(2,3) m have "s' = \<lparr>w_x = fl 2147483648 (- 2), w_tic = - 2147483648, w_drawn = 2147483648\<rparr>"
    by (cases s') simp
  with s'(1) have "?run = Some \<lparr>w_x = fl 2147483648 (- 2), w_tic = - 2147483648, w_drawn = 2147483648\<rparr>"
    by simp
  then show ?thesis
    unfolding final_state_wrap_def quarter_delta fourth_p over_x0 by (simp only: d_zero_grid [of "- 2"])
qed

lemma over_up_run:
  "random_walk_wrap d_zero (fl 2147483648 (- 2)) (fl 4 0) (fl 1 (- 4)) (\<lambda>i. d_half) =
     Some \<lparr>choice = 0, time = fl (- 134217728) 0\<rparr>"
proof -
  have "\<not> dlt (fl 2147483648 (- 2)) (fl 2147483648 (- 2))"
    by code_simp
  then show ?thesis
    by (simp add: random_walk_wrap_final over_up_final report_def over_time)
qed

lemma over_down_final:
  "final_state_wrap d_one (fl 2147483648 (- 2)) (fl (- 4) 0) (fl 1 (- 4)) (\<lambda>i. d_half) =
     Some \<lparr>w_x = d_zero, w_tic = - 2147483648, w_drawn = 2147483648\<rparr>"
proof -
  let ?run = "walk_loop_wrap (fl 2147483648 (- 2)) (fl 1 (- 2)) d_zero (\<lambda>i. d_half)
    \<lparr>w_x = fl 2147483648 (- 2), w_tic = 0, w_drawn = 0\<rparr>"
  have "\<not> dlt d_half d_zero"
    by code_simp
  then have down: "\<forall>i::nat. \<not> dlt d_half d_zero"
    by simp
  have "\<exists>s' m. ?run = Some s' \<and> 0 < m \<and> w_x s' = fl (2147483648 - int m * 1) (- 2) \<and>
      w_drawn s' = 0 + m \<and> 2147483648 - int m * 1 \<le> 0 \<and>
      (m = 1 \<or> 0 < 2147483648 - (int m - 1) * 1)"
    by (rule grid_wrap_down [OF _ _ _ _ _ down]) simp_all
  then obtain s' m where s': "?run = Some s'" "w_x s' = fl (2147483648 - int m) (- 2)"
    "w_drawn s' = m" "2147483648 \<le> int m" "m = 1 \<or> int m - 1 < 2147483648"
    by auto
  from s'(4,5) have m: "m = 2147483648"
    by auto
  from walk_loop_wrap_counts [OF s'(1)] s'(3) m have "w_tic s' = wrap32 2147483648"
    by simp
  then have "w_tic s' = - 2147483648"
    by (simp add: wrap32_def)
  with s'(2,3) m have "s' = \<lparr>w_x = d_zero, w_tic = - 2147483648, w_drawn = 2147483648\<rparr>"
    by (cases s') (simp add: d_zero_grid [of "- 2"])
  with s'(1) have "?run = Some \<lparr>w_x = d_zero, w_tic = - 2147483648, w_drawn = 2147483648\<rparr>"
    by simp
  then show ?thesis
    unfolding final_state_wrap_def quarter_delta over_down_p over_x1 .
qed

lemma over_down_run:
  "random_walk_wrap d_one (fl 2147483648 (- 2)) (fl (- 4) 0) (fl 1 (- 4)) (\<lambda>i. d_half) =
     Some \<lparr>choice = 0, time = fl (- 134217728) 0\<rparr>"
proof -
  have "\<not> dlt (fl 2147483648 (- 2)) d_zero"
    by code_simp
  then show ?thesis
    by (simp add: random_walk_wrap_final over_down_final report_def over_time)
qed

section \<open>The claims\<close>

text \<open>
  Claim C1. Whenever \<^verbatim>\<open>random_walk\<close> returns, the choice is read off the last position
  \<open>x\<close> of the loop: 1 if \<open>x > a\<close> and 0 otherwise. A last position equal to \<open>a\<close> gives 0,
  one above \<open>a\<close> gives 1.
\<close>

theorem random_walk_classifies:
  assumes "random_walk b a v t_eps runif = Inr out"
  shows "\<exists>s. final_state b a v t_eps runif = Inr s \<and>
             choice out = (if dlt a (w_x s) then 1 else 0) \<and>
             (deq (w_x s) a \<longrightarrow> choice out = 0) \<and>
             (dlt a (w_x s) \<longrightarrow> choice out = 1)"
proof -
  from assms obtain s where s: "final_state b a v t_eps runif = Inr s" "out = report a t_eps s"
    by (auto dest: random_walk_InrD)
  have "deq (w_x s) a \<longrightarrow> \<not> dlt a (w_x s)"
    by (auto dest: deq_not_dlt)
  with s show ?thesis
    by (auto simp: report_def)
qed

theorem random_walk_classifies_witness:
  "random_walk d_half d_one d_zero (fl 1 (- 4)) (\<lambda>i. fl 1 (- 2)) =
     Inr \<lparr>choice = 0, time = fl 1 (- 3)\<rparr> \<and>
   final_state d_half d_one d_zero (fl 1 (- 4)) (\<lambda>i. fl 1 (- 2)) =
     Inr \<lparr>w_x = d_one, w_tic = 2, w_drawn = 2\<rparr> \<and>
   deq d_one d_one \<and> \<not> dlt d_one d_one \<and>
   random_walk d_half d_one d_zero d_one (\<lambda>i. fl 1 (- 2)) = Inr \<lparr>choice = 1, time = d_one\<rparr> \<and>
   final_state d_half d_one d_zero d_one (\<lambda>i. fl 1 (- 2)) =
     Inr \<lparr>w_x = fl 3 (- 1), w_tic = 1, w_drawn = 1\<rparr> \<and>
   dlt d_one (fl 3 (- 1))"
proof -
  from random_walk_classifies [OF quarter_run]
  have "deq d_one d_one \<longrightarrow> \<not> dlt d_one d_one"
    by (simp add: quarter_final split: if_splits)
  moreover have "deq d_one d_one"
    by code_simp
  moreover from random_walk_classifies [OF half_up_run]
  have "dlt d_one (fl 3 (- 1))"
    by (simp add: half_up_final split: if_splits)
  ultimately show ?thesis
    using quarter_run quarter_final half_up_run half_up_final by simp
qed

text \<open>
  Claim C2. \<^verbatim>\<open>random_walk\<close> returns only after a step that leaves \<open>x\<close> outside the open
  interval from 0 to \<open>a\<close>. The last state of the trajectory fails \<open>0 < x < a\<close>, which for
  numbers is \<open>x \<le> 0\<close> or \<open>a \<le> x\<close>; every state before the last satisfies \<open>0 < x < a\<close>,
  and neither \<open>x \<le> 0\<close> nor \<open>a \<le> x\<close>, which is why the loop went on from there.
\<close>

theorem random_walk_stops_outside:
  assumes "random_walk b a v t_eps runif = Inr out"
  shows "\<exists>s. final_state b a v t_eps runif = Inr s \<and>
             trajectory b a v t_eps runif \<noteq> [] \<and>
             last (trajectory b a v t_eps runif) = s \<and>
             \<not> (dlt d_zero (w_x s) \<and> dlt (w_x s) a) \<and>
             (w_x s = NaN \<or> a = NaN \<or> dle (w_x s) d_zero \<or> dle a (w_x s)) \<and>
             (\<forall>t \<in> set (butlast (trajectory b a v t_eps runif)).
                dlt d_zero (w_x t) \<and> dlt (w_x t) a \<and>
                \<not> dle (w_x t) d_zero \<and> \<not> dle a (w_x t))"
proof -
  from assms obtain s where s: "final_state b a v t_eps runif = Inr s"
    by (auto dest: random_walk_InrD)
  then have out: "\<not> loop_cond a s"
    unfolding final_state_def by (rule walk_loop_exit)
  from s have "trajectory b a v t_eps runif \<noteq> [] \<and> last (trajectory b a v t_eps runif) = s"
    unfolding final_state_def trajectory_def by (rule walk_loop_last)
  moreover from out have "\<not> (dlt d_zero (w_x s) \<and> dlt (w_x s) a)"
    by (auto simp: loop_cond_def)
  moreover from out have "w_x s = NaN \<or> a = NaN \<or> dle (w_x s) d_zero \<or> dle a (w_x s)"
    by (auto simp: loop_cond_def dle_def d_zero_def)
  moreover have "\<forall>t \<in> set (butlast (trajectory b a v t_eps runif)).
      dlt d_zero (w_x t) \<and> dlt (w_x t) a \<and> \<not> dle (w_x t) d_zero \<and> \<not> dle a (w_x t)"
    unfolding trajectory_def by (auto dest: walk_trace_inside simp: loop_cond_def dle_def)
  ultimately show ?thesis using s by blast
qed

theorem random_walk_stops_outside_witness:
  "random_walk d_half d_one d_zero (fl 1 (- 4)) (\<lambda>i. fl 1 (- 2)) =
     Inr \<lparr>choice = 0, time = fl 1 (- 3)\<rparr> \<and>
   final_state d_half d_one d_zero (fl 1 (- 4)) (\<lambda>i. fl 1 (- 2)) =
     Inr \<lparr>w_x = d_one, w_tic = 2, w_drawn = 2\<rparr> \<and>
   butlast (trajectory d_half d_one d_zero (fl 1 (- 4)) (\<lambda>i. fl 1 (- 2))) =
     [\<lparr>w_x = fl 3 (- 2), w_tic = 1, w_drawn = 1\<rparr>] \<and>
   dlt d_zero (fl 3 (- 2)) \<and> dlt (fl 3 (- 2)) d_one \<and>
   \<not> dlt d_one d_one \<and> dle d_one d_one"
proof -
  from random_walk_stops_outside [OF quarter_run]
  have "\<not> (dlt d_zero d_one \<and> dlt d_one d_one) \<and>
        (d_one = NaN \<or> dle d_one d_zero \<or> dle d_one d_one) \<and>
        dlt d_zero (fl 3 (- 2)) \<and> dlt (fl 3 (- 2)) d_one"
    by (simp add: quarter_final quarter_trajectory)
  moreover have "dlt d_zero d_one" "\<not> dle d_one d_zero" "d_one \<noteq> NaN"
    by code_simp+
  ultimately show ?thesis
    using quarter_run quarter_final quarter_trajectory by simp
qed

text \<open>
  Claim C3 promises \<open>time \<ge> t_eps\<close> for every sequence of draws. From \<open>b = 0\<close>,
  \<open>a = 2 ^ 29\<close>, \<open>v = 4\<close>, \<open>t_eps = 1/16\<close> and every draw \<open>1/2\<close> the walk needs \<open>2 ^ 31\<close>
  passes to reach \<open>a\<close>. The last one increments \<^verbatim>\<open>tic\<close> at \<^verbatim>\<open>INT_MAX\<close>: C++ defines no
  result, and with the wrap-around \<^verbatim>\<open>tic\<close> is \<open>-2 ^ 31\<close> and the time returned
  \<open>-134217728\<close>.
\<close>

theorem time_bound_counterexample:
  "dlt d_zero (fl 1 (- 4)) \<and> \<not> dlt d_half d_zero \<and> dlt d_half d_one \<and>
   final_state_wrap d_zero (fl 2147483648 (- 2)) (fl 4 0) (fl 1 (- 4)) (\<lambda>i. d_half) =
     Some \<lparr>w_x = fl 2147483648 (- 2), w_tic = - 2147483648, w_drawn = 2147483648\<rparr> \<and>
   random_walk_wrap d_zero (fl 2147483648 (- 2)) (fl 4 0) (fl 1 (- 4)) (\<lambda>i. d_half) =
     Some \<lparr>choice = 0, time = fl (- 134217728) 0\<rparr> \<and>
   \<not> dle (fl 1 (- 4)) (fl (- 134217728) 0) \<and>
   random_walk d_zero (fl 2147483648 (- 2)) (fl 4 0) (fl 1 (- 4)) (\<lambda>i. d_half) =
     Inl SignedOverflow"
proof -
  have "dlt d_zero (fl 1 (- 4))" "\<not> dlt d_half d_zero" "dlt d_half d_one"
    "\<not> dle (fl 1 (- 4)) (fl (- 134217728) 0)"
    by code_simp+
  moreover have "random_walk d_zero (fl 2147483648 (- 2)) (fl 4 0) (fl 1 (- 4)) (\<lambda>i. d_half) =
      Inl SignedOverflow"
    by (rule overflow_of_wrap [OF over_up_final]) simp
  ultimately show ?thesis
    using over_up_final over_up_run by simp
qed

text \<open>
  Claim C3, amended. The body of the loop runs at least once, whatever the starting position,
  the test coming after it; and for \<open>t_eps > 0\<close> a run that returns after at most
  \<open>INT_MAX = 2 ^ 31 - 1\<close> passes has \<open>time \<ge> t_eps\<close>. Nothing is said of longer runs,
  where \<^verbatim>\<open>tic\<close> has overflowed.
\<close>

theorem random_walk_at_least_one_step:
  assumes "is_double t_eps" "dlt d_zero t_eps"
  shows "trajectory b a v t_eps runif \<noteq> [] \<and>
         (\<forall>out. random_walk_wrap b a v t_eps runif = Some out \<longrightarrow>
            (\<exists>s. final_state_wrap b a v t_eps runif = Some s \<and> out = report a t_eps s \<and>
                 1 \<le> w_drawn s \<and>
                 (int (w_drawn s) \<le> INT_MAX \<longrightarrow>
                    w_tic s = int (w_drawn s) \<and> dle t_eps (time out) \<and>
                    random_walk b a v t_eps runif = Inr out)))"
proof (intro conjI allI impI)
  show "trajectory b a v t_eps runif \<noteq> []"
    by (rule trajectory_nonempty)
next
  fix out
  assume "random_walk_wrap b a v t_eps runif = Some out"
  then obtain s where s: "final_state_wrap b a v t_eps runif = Some s" "out = report a t_eps s"
    by (auto simp: random_walk_wrap_final split: option.splits)
  note n = final_state_wrap_counts [OF s(1)]
  have "w_tic s = int (w_drawn s) \<and> dle t_eps (time out) \<and> random_walk b a v t_eps runif = Inr out"
    if le: "int (w_drawn s) \<le> INT_MAX"
  proof -
    from le n(2) have tic: "w_tic s = int (w_drawn s)"
      by (simp add: wrap32_id INT_MAX_def)
    with n(1) have "1 \<le> w_tic s"
      by simp
    with assms have "dle t_eps (time (report a t_eps s))"
      by (rule time_ge_t_eps)
    moreover from s(1) le have "final_state b a v t_eps runif = Inr s"
      by (rule final_state_of_wrap)
    ultimately show ?thesis
      using tic s(2) by (simp add: random_walk_final)
  qed
  with s n(1)
  show "\<exists>s. final_state_wrap b a v t_eps runif = Some s \<and> out = report a t_eps s \<and>
            1 \<le> w_drawn s \<and>
            (int (w_drawn s) \<le> INT_MAX \<longrightarrow>
               w_tic s = int (w_drawn s) \<and> dle t_eps (time out) \<and>
               random_walk b a v t_eps runif = Inr out)"
    by blast
qed

theorem random_walk_at_least_one_step_witness:
  "is_double (fl 1 (- 4)) \<and> dlt d_zero (fl 1 (- 4)) \<and>
   dmul d_one d_zero = d_zero \<and>
   random_walk_wrap d_zero d_one d_zero (fl 1 (- 4)) (\<lambda>i. fl 3 (- 2)) =
     Some \<lparr>choice = 0, time = fl 1 (- 4)\<rparr> \<and>
   final_state_wrap d_zero d_one d_zero (fl 1 (- 4)) (\<lambda>i. fl 3 (- 2)) =
     Some \<lparr>w_x = fl (- 1) (- 2), w_tic = 1, w_drawn = 1\<rparr> \<and>
   int 1 \<le> INT_MAX \<and>
   dle (fl 1 (- 4)) (fl 1 (- 4)) \<and>
   random_walk d_zero d_one d_zero (fl 1 (- 4)) (\<lambda>i. fl 3 (- 2)) =
     Inr \<lparr>choice = 0, time = fl 1 (- 4)\<rparr>"
proof -
  have d: "is_double (fl 1 (- 4))"
    by (rule fl_facts)
  have pos: "dlt d_zero (fl 1 (- 4))"
    by code_simp
  have le: "int 1 \<le> INT_MAX"
    by (simp add: INT_MAX_def)
  from random_walk_at_least_one_step [OF d pos, of d_zero d_one d_zero "\<lambda>i. fl 3 (- 2)"]
    barrier_wrap_run
  have "\<exists>s. final_state_wrap d_zero d_one d_zero (fl 1 (- 4)) (\<lambda>i. fl 3 (- 2)) = Some s \<and>
      (int (w_drawn s) \<le> INT_MAX \<longrightarrow>
         dle (fl 1 (- 4)) (time \<lparr>choice = 0, time = fl 1 (- 4)\<rparr>) \<and>
         random_walk d_zero d_one d_zero (fl 1 (- 4)) (\<lambda>i. fl 3 (- 2)) =
           Inr \<lparr>choice = 0, time = fl 1 (- 4)\<rparr>)"
    by blast
  with le have "dle (fl 1 (- 4)) (fl 1 (- 4)) \<and>
      random_walk d_zero d_one d_zero (fl 1 (- 4)) (\<lambda>i. fl 3 (- 2)) =
        Inr \<lparr>choice = 0, time = fl 1 (- 4)\<rparr>"
    by (auto simp: barrier_wrap_final)
  with d pos le barrier_x0 barrier_wrap_run barrier_wrap_final show ?thesis
    by simp
qed

text \<open>
  Claim C4. Every iteration takes one draw \<open>r\<close>, the next one of the source, moves \<open>x\<close> up by
  \<open>delta\<close> if \<open>r < p\<close> and down by \<open>delta\<close> otherwise, and adds one to \<open>tic\<close>. A draw equal
  to \<open>p\<close> moves \<open>x\<close> down.
\<close>

theorem loop_iteration:
  assumes "i < length (walk_trace a delta p runif s0)"
  shows "\<exists>s s' r. s = (s0 # walk_trace a delta p runif s0) ! i \<and>
            s' = walk_trace a delta p runif s0 ! i \<and>
            r = runif (w_drawn s) \<and>
            loop_body delta p runif s = Inr s' \<and>
            w_drawn s = w_drawn s0 + i \<and>
            w_drawn s' = w_drawn s + 1 \<and>
            w_tic s' = w_tic s + 1 \<and>
            w_x s' = (if dlt r p then dadd (w_x s) delta else dsub (w_x s) delta) \<and>
            (deq r p \<longrightarrow> w_x s' = dsub (w_x s) delta)"
proof -
  let ?tr = "walk_trace a delta p runif s0"
  let ?s = "(s0 # ?tr) ! i" and ?s' = "?tr ! i"
  from assms have body: "loop_body delta p runif ?s = Inr ?s'"
    by (rule walk_trace_steps)
  have drawn: "w_drawn ?s = w_drawn s0 + i"
  proof (cases i)
    case 0
    then show ?thesis by simp
  next
    case (Suc j)
    with assms have "j < length ?tr" by simp
    from walk_trace_counts [OF this] Suc show ?thesis by simp
  qed
  have "deq (runif (w_drawn ?s)) p \<longrightarrow> \<not> dlt (runif (w_drawn ?s)) p"
    by (auto dest: deq_not_dlt)
  with body drawn show ?thesis
    by (auto simp: loop_body_Inr)
qed

theorem loop_iteration_witness:
  "(0::nat) < length (walk_trace d_one (fl 1 (- 2)) d_half (\<lambda>i. d_half)
      \<lparr>w_x = d_half, w_tic = 0, w_drawn = 0\<rparr>) \<and>
   loop_body (fl 1 (- 2)) d_half (\<lambda>i. d_half) \<lparr>w_x = d_half, w_tic = 0, w_drawn = 0\<rparr> =
     Inr \<lparr>w_x = fl 1 (- 2), w_tic = 1, w_drawn = 1\<rparr> \<and>
   deq d_half d_half \<and>
   fl 1 (- 2) = dsub d_half (fl 1 (- 2))"
proof -
  have len: "(0::nat) < length (walk_trace d_one (fl 1 (- 2)) d_half (\<lambda>i. d_half)
      \<lparr>w_x = d_half, w_tic = 0, w_drawn = 0\<rparr>)"
    by (simp add: equal_trace)
  have eq: "deq d_half d_half"
    by code_simp
  from loop_iteration [OF len] eq show ?thesis
    by (simp add: equal_trace)
qed

text \<open>
  Claim C5. \<^verbatim>\<open>random_walk\<close> runs its loop with \<open>delta = sqrt t_eps\<close> and
  \<open>p = 0.5 * (1 + v * delta)\<close> from the position \<open>a * b\<close> and the counter 0, and every
  iteration of the trajectory is made with that same \<open>delta\<close> and \<open>p\<close>.
\<close>

theorem random_walk_constants:
  "random_walk b a v t_eps runif =
     (case walk_loop a (dsqrt t_eps) (dmul d_half (dadd d_one (dmul v (dsqrt t_eps)))) runif
             \<lparr>w_x = dmul a b, w_tic = 0, w_drawn = 0\<rparr> of
        Inl err \<Rightarrow> Inl err
      | Inr s \<Rightarrow> Inr (report a t_eps s)) \<and>
   (\<forall>i < length (trajectory b a v t_eps runif).
      loop_body (dsqrt t_eps) (dmul d_half (dadd d_one (dmul v (dsqrt t_eps)))) runif
        ((\<lparr>w_x = dmul a b, w_tic = 0, w_drawn = 0\<rparr> # trajectory b a v t_eps runif) ! i) =
      Inr (trajectory b a v t_eps runif ! i))"
  unfolding trajectory_def
  by (simp add: random_walk_def Let_def walk_trace_steps)

theorem random_walk_constants_witness:
  "length (trajectory d_half d_one d_zero (fl 1 (- 4)) (\<lambda>i. fl 1 (- 2))) = 2 \<and>
   dsqrt (fl 1 (- 4)) = fl 1 (- 2) \<and>
   dmul d_half (dadd d_one (dmul d_zero (dsqrt (fl 1 (- 4))))) = d_half \<and>
   dmul d_one d_half = d_half \<and>
   loop_body (fl 1 (- 2)) d_half (\<lambda>i. fl 1 (- 2)) \<lparr>w_x = d_half, w_tic = 0, w_drawn = 0\<rparr> =
     Inr \<lparr>w_x = fl 3 (- 2), w_tic = 1, w_drawn = 1\<rparr> \<and>
   loop_body (fl 1 (- 2)) d_half (\<lambda>i. fl 1 (- 2)) \<lparr>w_x = fl 3 (- 2), w_tic = 1, w_drawn = 1\<rparr> =
     Inr \<lparr>w_x = d_one, w_tic = 2, w_drawn = 2\<rparr>"
proof -
  let ?traj = "trajectory d_half d_one d_zero (fl 1 (- 4)) (\<lambda>i. fl 1 (- 2))"
  have len: "length ?traj = 2"
    by (simp add: quarter_trajectory)
  from random_walk_constants [of d_half d_one d_zero "fl 1 (- 4)" "\<lambda>i. fl 1 (- 2)"]
  have steps: "\<forall>i < length ?traj.
      loop_body (dsqrt (fl 1 (- 4))) (dmul d_half (dadd d_one (dmul d_zero (dsqrt (fl 1 (- 4))))))
        (\<lambda>i. fl 1 (- 2)) ((\<lparr>w_x = dmul d_one d_half, w_tic = 0, w_drawn = 0\<rparr> # ?traj) ! i) =
      Inr (?traj ! i)"
    by (rule conjunct2)
  from steps [rule_format, of 0] len have "loop_body (dsqrt (fl 1 (- 4)))
      (dmul d_half (dadd d_one (dmul d_zero (dsqrt (fl 1 (- 4)))))) (\<lambda>i. fl 1 (- 2))
        ((\<lparr>w_x = dmul d_one d_half, w_tic = 0, w_drawn = 0\<rparr> # ?traj) ! 0) = Inr (?traj ! 0)"
    by simp
  moreover from steps [rule_format, of 1] len have "loop_body (dsqrt (fl 1 (- 4)))
      (dmul d_half (dadd d_one (dmul d_zero (dsqrt (fl 1 (- 4)))))) (\<lambda>i. fl 1 (- 2))
        ((\<lparr>w_x = dmul d_one d_half, w_tic = 0, w_drawn = 0\<rparr> # ?traj) ! 1) = Inr (?traj ! 1)"
    by simp
  ultimately show ?thesis
    using len by (simp add: quarter_trajectory quarter_delta quarter_p quarter_x0)
qed

text \<open>
  Claim C6 takes \<^verbatim>\<open>tic\<close> for the number of passes in every run that ends. From \<open>b = 1\<close>,
  \<open>a = 2 ^ 29\<close>, \<open>v = -4\<close>, \<open>t_eps = 1/16\<close> and every draw \<open>1/2\<close> the walk goes down to 0 in
  \<open>2 ^ 31\<close> passes. C++ defines no result; with the wrap-around the run ends with
  \<^verbatim>\<open>tic\<close> at \<open>-2 ^ 31\<close> after \<open>2 ^ 31\<close> passes, and the time returned is \<open>-134217728\<close>, not
  \<open>2 ^ 31 * t_eps = 134217728\<close>.
\<close>

theorem step_count_counterexample:
  "final_state_wrap d_one (fl 2147483648 (- 2)) (fl (- 4) 0) (fl 1 (- 4)) (\<lambda>i. d_half) =
     Some \<lparr>w_x = d_zero, w_tic = - 2147483648, w_drawn = 2147483648\<rparr> \<and>
   random_walk_wrap d_one (fl 2147483648 (- 2)) (fl (- 4) 0) (fl 1 (- 4)) (\<lambda>i. d_half) =
     Some \<lparr>choice = 0, time = fl (- 134217728) 0\<rparr> \<and>
   dmul (d_of_int (- 2147483648)) (fl 1 (- 4)) = fl (- 134217728) 0 \<and>
   dmul (d_of_int 2147483648) (fl 1 (- 4)) = fl 134217728 0 \<and>
   \<not> deq (fl (- 134217728) 0) (fl 134217728 0) \<and>
   random_walk d_one (fl 2147483648 (- 2)) (fl (- 4) 0) (fl 1 (- 4)) (\<lambda>i. d_half) =
     Inl SignedOverflow"
proof -
  have "\<not> deq (fl (- 134217728) 0) (fl 134217728 0)"
    by code_simp
  moreover have "random_walk d_one (fl 2147483648 (- 2)) (fl (- 4) 0) (fl 1 (- 4)) (\<lambda>i. d_half) =
      Inl SignedOverflow"
    by (rule overflow_of_wrap [OF over_down_final]) simp
  ultimately show ?thesis
    using over_down_final over_down_run over_time over_passes_time by simp
qed

text \<open>
  Claim C6, amended. A value returned by \<^verbatim>\<open>random_walk\<close> has a choice of 0 or 1 and the time
  \<open>tic * t_eps\<close>; \<open>tic\<close> is the number of passes made, which is also the number of draws
  taken, when that number is at most \<open>INT_MAX = 2 ^ 31 - 1\<close>. In a longer run it is that number
  wrapped round.
\<close>

theorem random_walk_result:
  assumes "random_walk_wrap b a v t_eps runif = Some out"
  shows "(choice out = 0 \<or> choice out = 1) \<and>
         (\<exists>s. final_state_wrap b a v t_eps runif = Some s \<and>
              time out = dmul (d_of_int (w_tic s)) t_eps \<and>
              1 \<le> w_drawn s \<and> w_tic s = wrap32 (int (w_drawn s)) \<and>
              (int (w_drawn s) \<le> INT_MAX \<longrightarrow>
                 w_tic s = int (w_drawn s) \<and>
                 w_drawn s = length (trajectory b a v t_eps runif) \<and>
                 final_state b a v t_eps runif = Inr s \<and>
                 random_walk b a v t_eps runif = Inr out))"
proof -
  from assms obtain s where s: "final_state_wrap b a v t_eps runif = Some s" "out = report a t_eps s"
    by (auto simp: random_walk_wrap_final split: option.splits)
  note n = final_state_wrap_counts [OF s(1)]
  have "w_tic s = int (w_drawn s) \<and> w_drawn s = length (trajectory b a v t_eps runif) \<and>
        final_state b a v t_eps runif = Inr s \<and> random_walk b a v t_eps runif = Inr out"
    if le: "int (w_drawn s) \<le> INT_MAX"
  proof -
    from le n(2) have tic: "w_tic s = int (w_drawn s)"
      by (simp add: wrap32_id INT_MAX_def)
    from s(1) le have fs: "final_state b a v t_eps runif = Inr s"
      by (rule final_state_of_wrap)
    then have "w_drawn s = length (trajectory b a v t_eps runif)"
      unfolding final_state_def trajectory_def by (auto dest: walk_loop_counts)
    with tic fs s(2) show ?thesis
      by (simp add: random_walk_final)
  qed
  with s n(1,2) show ?thesis
    by (auto simp: report_def)
qed

theorem random_walk_result_witness:
  "random_walk_wrap d_half d_one d_zero (fl 1 (- 4)) (\<lambda>i. fl 1 (- 2)) =
     Some \<lparr>choice = 0, time = fl 1 (- 3)\<rparr> \<and>
   final_state_wrap d_half d_one d_zero (fl 1 (- 4)) (\<lambda>i. fl 1 (- 2)) =
     Some \<lparr>w_x = d_one, w_tic = 2, w_drawn = 2\<rparr> \<and>
   fl 1 (- 3) = dmul (d_of_int 2) (fl 1 (- 4)) \<and>
   int 2 \<le> INT_MAX \<and>
   length (trajectory d_half d_one d_zero (fl 1 (- 4)) (\<lambda>i. fl 1 (- 2))) = 2 \<and>
   final_state d_half d_one d_zero (fl 1 (- 4)) (\<lambda>i. fl 1 (- 2)) =
     Inr \<lparr>w_x = d_one, w_tic = 2, w_drawn = 2\<rparr> \<and>
   random_walk d_half d_one d_zero (fl 1 (- 4)) (\<lambda>i. fl 1 (- 2)) =
     Inr \<lparr>choice = 0, time = fl 1 (- 3)\<rparr>"
proof -
  have le: "int 2 \<le> INT_MAX"
    by (simp add: INT_MAX_def)
  from random_walk_result [OF quarter_wrap_run]
  have "\<exists>s. final_state_wrap d_half d_one d_zero (fl 1 (- 4)) (\<lambda>i. fl 1 (- 2)) = Some s \<and>
      time \<lparr>choice = 0, time = fl 1 (- 3)\<rparr> = dmul (d_of_int (w_tic s)) (fl 1 (- 4)) \<and>
      (int (w_drawn s) \<le> INT_MAX \<longrightarrow>
         w_drawn s = length (trajectory d_half d_one d_zero (fl 1 (- 4)) (\<lambda>i. fl 1 (- 2))) \<and>
         final_state d_half d_one d_zero (fl 1 (- 4)) (\<lambda>i. fl 1 (- 2)) = Inr s \<and>
         random_walk d_half d_one d_zero (fl 1 (- 4)) (\<lambda>i. fl 1 (- 2)) =
           Inr \<lparr>choice = 0, time = fl 1 (- 3)\<rparr>)"
    by blast
  with le have "fl 1 (- 3) = dmul (d_of_int 2) (fl 1 (- 4)) \<and>
      length (trajectory d_half d_one d_zero (fl 1 (- 4)) (\<lambda>i. fl 1 (- 2))) = 2 \<and>
      final_state d_half d_one d_zero (fl 1 (- 4)) (\<lambda>i. fl 1 (- 2)) =
        Inr \<lparr>w_x = d_one, w_tic = 2, w_drawn = 2\<rparr> \<and>
      random_walk d_half d_one d_zero (fl 1 (- 4)) (\<lambda>i. fl 1 (- 2)) =
        Inr \<lparr>choice = 0, time = fl 1 (- 3)\<rparr>"
    by (auto simp: quarter_wrap_final)
  with le quarter_wrap_run quarter_wrap_final show ?thesis
    by simp
qed

text \<open>
  Claim C7 bounds the iterations by \<open>ceil (a / delta)\<close> when \<open>p\<close> is 0 or 1. From \<open>b = 0\<close>,
  \<open>a = 1\<close>, \<open>v = 10\<close> and \<open>t_eps\<close> the double nearest to \<open>0.01\<close>, \<open>delta\<close> is the double
  nearest to \<open>0.1\<close>, \<open>v * delta\<close> rounds to 1 and \<open>p = 1\<close>; the bound is 10. Ten steps up add
  to \<open>0.9999999999999999\<close>, below \<open>a\<close>, and the loop makes an eleventh.
\<close>

theorem iteration_bound_counterexample:
  "dlt d_zero d_one \<and> dlt d_zero (Fin 5764607523034235 (- 59)) \<and>
   dle d_zero (dmul d_one d_zero) \<and> dle (dmul d_one d_zero) d_one \<and>
   \<not> dlt d_half d_zero \<and> dlt d_half d_one \<and>
   dmul d_half (dadd d_one (dmul (fl 10 0) (dsqrt (Fin 5764607523034235 (- 59))))) = d_one \<and>
   \<lceil>rval d_one / rval (dsqrt (Fin 5764607523034235 (- 59)))\<rceil> = 10 \<and>
   final_state d_zero d_one (fl 10 0) (Fin 5764607523034235 (- 59)) (\<lambda>i. d_half) =
     Inr \<lparr>w_x = Fin 4953959590107545 (- 52), w_tic = 11, w_drawn = 11\<rparr> \<and>
   length (trajectory d_zero d_one (fl 10 0) (Fin 5764607523034235 (- 59)) (\<lambda>i. d_half)) = 11"
proof -
  have "dlt d_zero d_one" "dlt d_zero (Fin 5764607523034235 (- 59))"
    "dle d_zero d_zero" "dle d_zero d_one" "\<not> dlt d_half d_zero" "dlt d_half d_one"
    by code_simp+
  then show ?thesis
    unfolding tenth_final barrier_x0 tenth_delta tenth_p tenth_ceiling tenth_trajectory by simp
qed

text \<open>
  Claim C7, amended. With \<open>t_eps > 0\<close>, \<open>0 \<le> a * b\<close> and every draw in \<open>[0, 1)\<close>: when
  \<open>p\<close> is exactly 1 every step of the trajectory goes up and the position never decreases,
  and when \<open>p\<close> is exactly 0 every step goes down and the position never increases. The
  bound of \<open>ceil (a / delta)\<close> iterations holds when no step rounds: when \<open>a\<close>, \<open>a * b\<close> and
  \<open>delta\<close> are the multiples \<open>ka\<close>, \<open>k0\<close> and \<open>c\<close> of one power of two \<open>2 ^ g\<close> of the
  format, with \<open>0 \<le> k0 \<le> ka\<close>, \<open>0 < ka\<close>, \<open>0 < c\<close>, \<open>ka + c < 2 ^ 53\<close> and
  \<open>ka \<le> INT_MAX * c\<close>, the walk returns after at least one and at most \<open>ceil (a / delta)\<close>
  iterations.
\<close>

theorem constant_direction:
  assumes draws: "\<forall>i. \<not> dlt (runif i) d_zero \<and> dlt (runif i) d_one"
    and pre: "dlt d_zero t_eps" "dle d_zero (dmul a b)"
  shows "(deq (dmul d_half (dadd d_one (dmul v (dsqrt t_eps)))) d_one \<longrightarrow>
            (\<forall>i < length (trajectory b a v t_eps runif).
               w_x (trajectory b a v t_eps runif ! i) =
                 dadd (w_x ((\<lparr>w_x = dmul a b, w_tic = 0, w_drawn = 0\<rparr> #
                   trajectory b a v t_eps runif) ! i)) (dsqrt t_eps) \<and>
               dle (w_x ((\<lparr>w_x = dmul a b, w_tic = 0, w_drawn = 0\<rparr> #
                   trajectory b a v t_eps runif) ! i))
                 (w_x (trajectory b a v t_eps runif ! i)))) \<and>
         (deq (dmul d_half (dadd d_one (dmul v (dsqrt t_eps)))) d_zero \<longrightarrow>
            (\<forall>i < length (trajectory b a v t_eps runif).
               w_x (trajectory b a v t_eps runif ! i) =
                 dsub (w_x ((\<lparr>w_x = dmul a b, w_tic = 0, w_drawn = 0\<rparr> #
                   trajectory b a v t_eps runif) ! i)) (dsqrt t_eps) \<and>
               dle (w_x (trajectory b a v t_eps runif ! i))
                 (w_x ((\<lparr>w_x = dmul a b, w_tic = 0, w_drawn = 0\<rparr> #
                   trajectory b a v t_eps runif) ! i)))) \<and>
         (\<forall>g c ka k0.
            - 1074 \<le> g \<and> g \<le> 971 \<and>
            dsqrt t_eps = fl c g \<and> a = fl ka g \<and> dmul a b = fl k0 g \<and>
            0 < c \<and> 0 \<le> k0 \<and> k0 \<le> ka \<and> 0 < ka \<and> ka + c < 2 ^ 53 \<and> ka \<le> INT_MAX * c \<and>
            (deq (dmul d_half (dadd d_one (dmul v (dsqrt t_eps)))) d_one \<or>
             deq (dmul d_half (dadd d_one (dmul v (dsqrt t_eps)))) d_zero) \<longrightarrow>
            (\<exists>s. final_state b a v t_eps runif = Inr s \<and> 1 \<le> w_tic s \<and>
                 w_tic s \<le> \<lceil>rval a / rval (dsqrt t_eps)\<rceil>))"
  using constant_direction_steps [OF assms, of v] grid_iteration_bound [OF draws, of _ t_eps _ a _ b _ v]
  by blast

theorem constant_direction_witness:
  "\<not> dlt d_half d_zero \<and> dlt d_half d_one \<and>
   dlt d_zero (Fin 5764607523034235 (- 59)) \<and>
   dle d_zero (dmul d_one d_zero) \<and>
   deq (dmul d_half (dadd d_one (dmul (fl 10 0) (dsqrt (Fin 5764607523034235 (- 59)))))) d_one \<and>
   length (trajectory d_zero d_one (fl 10 0) (Fin 5764607523034235 (- 59)) (\<lambda>i. d_half)) = 11 \<and>
   dadd (Fin 9007199254740991 (- 53)) (dsqrt (Fin 5764607523034235 (- 59))) =
     Fin 4953959590107545 (- 52) \<and>
   dle (Fin 9007199254740991 (- 53)) (Fin 4953959590107545 (- 52)) \<and>
   dle d_zero (dmul d_one d_one) \<and>
   deq (dmul d_half (dadd d_one (dmul (fl (- 10) 0) (dsqrt (Fin 5764607523034235 (- 59)))))) d_zero \<and>
   0 < length (trajectory d_one d_one (fl (- 10) 0) (Fin 5764607523034235 (- 59)) (\<lambda>i. d_half)) \<and>
   w_x (trajectory d_one d_one (fl (- 10) 0) (Fin 5764607523034235 (- 59)) (\<lambda>i. d_half) ! 0) =
     dsub d_one (dsqrt (Fin 5764607523034235 (- 59))) \<and>
   dle (w_x (trajectory d_one d_one (fl (- 10) 0) (Fin 5764607523034235 (- 59)) (\<lambda>i. d_half) ! 0))
     d_one \<and>
   d_one = fl 4 (- 2) \<and> dmul d_one d_zero = fl 0 (- 2) \<and> dsqrt (fl 1 (- 4)) = fl 1 (- 2) \<and>
   deq (dmul d_half (dadd d_one (dmul (fl 4 0) (dsqrt (fl 1 (- 4)))))) d_one \<and>
   (\<exists>s. final_state d_zero d_one (fl 4 0) (fl 1 (- 4)) (\<lambda>i. d_half) = Inr s \<and> 1 \<le> w_tic s \<and>
        w_tic s \<le> \<lceil>rval d_one / rval (dsqrt (fl 1 (- 4)))\<rceil>) \<and>
   final_state d_zero d_one (fl 4 0) (fl 1 (- 4)) (\<lambda>i. d_half) =
     Inr \<lparr>w_x = d_one, w_tic = 4, w_drawn = 4\<rparr> \<and>
   \<lceil>rval d_one / rval (dsqrt (fl 1 (- 4)))\<rceil> = 4"
proof -
  have in_unit: "\<not> dlt d_half d_zero" "dlt d_half d_one"
    by code_simp+
  then have draws: "\<forall>i::nat. \<not> dlt d_half d_zero \<and> dlt d_half d_one"
    by simp
  have t: "dlt d_zero (Fin 5764607523034235 (- 59))"
    by code_simp
  have x0: "dle d_zero (dmul d_one d_zero)" "dle d_zero (dmul d_one d_one)"
    unfolding barrier_x0 one_x0 by code_simp+
  have up: "deq (dmul d_half (dadd d_one (dmul (fl 10 0) (dsqrt (Fin 5764607523034235 (- 59)))))) d_one"
    unfolding tenth_delta tenth_p by code_simp
  have down: "deq (dmul d_half (dadd d_one (dmul (fl (- 10) 0) (dsqrt (Fin 5764607523034235 (- 59)))))) d_zero"
    unfolding tenth_delta down_p by code_simp
  have len: "length (trajectory d_zero d_one (fl 10 0) (Fin 5764607523034235 (- 59)) (\<lambda>i. d_half)) = 11"
    by (simp add: tenth_trajectory)
  have pos: "0 < length (trajectory d_one d_one (fl (- 10) 0) (Fin 5764607523034235 (- 59)) (\<lambda>i. d_half))"
    using trajectory_nonempty by blast
  have "10 < length (trajectory d_zero d_one (fl 10 0) (Fin 5764607523034235 (- 59)) (\<lambda>i. d_half))"
    by (simp add: len)
  with constant_direction [OF draws t x0(1), of "fl 10 0"] up
  have "w_x (trajectory d_zero d_one (fl 10 0) (Fin 5764607523034235 (- 59)) (\<lambda>i. d_half) ! 10) =
      dadd (w_x ((\<lparr>w_x = dmul d_one d_zero, w_tic = 0, w_drawn = 0\<rparr> #
        trajectory d_zero d_one (fl 10 0) (Fin 5764607523034235 (- 59)) (\<lambda>i. d_half)) ! 10))
        (dsqrt (Fin 5764607523034235 (- 59))) \<and>
      dle (w_x ((\<lparr>w_x = dmul d_one d_zero, w_tic = 0, w_drawn = 0\<rparr> #
        trajectory d_zero d_one (fl 10 0) (Fin 5764607523034235 (- 59)) (\<lambda>i. d_half)) ! 10))
        (w_x (trajectory d_zero d_one (fl 10 0) (Fin 5764607523034235 (- 59)) (\<lambda>i. d_half) ! 10))"
    by blast
  then have c1: "w_x (trajectory d_zero d_one (fl 10 0) (Fin 5764607523034235 (- 59)) (\<lambda>i. d_half) ! 10) =
      dadd (w_x ((\<lparr>w_x = dmul d_one d_zero, w_tic = 0, w_drawn = 0\<rparr> #
        trajectory d_zero d_one (fl 10 0) (Fin 5764607523034235 (- 59)) (\<lambda>i. d_half)) ! 10))
        (dsqrt (Fin 5764607523034235 (- 59)))"
    and c2: "dle (w_x ((\<lparr>w_x = dmul d_one d_zero, w_tic = 0, w_drawn = 0\<rparr> #
        trajectory d_zero d_one (fl 10 0) (Fin 5764607523034235 (- 59)) (\<lambda>i. d_half)) ! 10))
        (w_x (trajectory d_zero d_one (fl 10 0) (Fin 5764607523034235 (- 59)) (\<lambda>i. d_half) ! 10))"
    by blast+
  from c1 have 1: "dadd (Fin 9007199254740991 (- 53)) (dsqrt (Fin 5764607523034235 (- 59))) =
      Fin 4953959590107545 (- 52)"
    unfolding tenth_trajectory by simp
  from c2 have 3: "dle (Fin 9007199254740991 (- 53)) (Fin 4953959590107545 (- 52))"
    unfolding tenth_trajectory by simp
  from constant_direction [OF draws t x0(2), of "fl (- 10) 0"] down pos
  have d1: "w_x (trajectory d_one d_one (fl (- 10) 0) (Fin 5764607523034235 (- 59)) (\<lambda>i. d_half) ! 0) =
      dsub (w_x ((\<lparr>w_x = dmul d_one d_one, w_tic = 0, w_drawn = 0\<rparr> #
        trajectory d_one d_one (fl (- 10) 0) (Fin 5764607523034235 (- 59)) (\<lambda>i. d_half)) ! 0))
        (dsqrt (Fin 5764607523034235 (- 59)))"
    and d2: "dle (w_x (trajectory d_one d_one (fl (- 10) 0) (Fin 5764607523034235 (- 59)) (\<lambda>i. d_half) ! 0))
        (w_x ((\<lparr>w_x = dmul d_one d_one, w_tic = 0, w_drawn = 0\<rparr> #
        trajectory d_one d_one (fl (- 10) 0) (Fin 5764607523034235 (- 59)) (\<lambda>i. d_half)) ! 0))"
    by blast+
  from d1 have 2: "w_x (trajectory d_one d_one (fl (- 10) 0) (Fin 5764607523034235 (- 59)) (\<lambda>i. d_half) ! 0) =
      dsub d_one (dsqrt (Fin 5764607523034235 (- 59)))"
    by (simp add: one_x0)
  from d2 have 4: "dle (w_x (trajectory d_one d_one (fl (- 10) 0) (Fin 5764607523034235 (- 59)) (\<lambda>i. d_half) ! 0))
      d_one"
    by (simp add: one_x0)
  have q: "dlt d_zero (fl 1 (- 4))"
    by code_simp
  have grid: "d_one = fl 4 (- 2)" "dmul d_one d_zero = fl 0 (- 2)"
    unfolding barrier_x0 by code_simp+
  have one: "deq d_one d_one"
    by code_simp
  then have p1: "deq (dmul d_half (dadd d_one (dmul (fl 4 0) (dsqrt (fl 1 (- 4)))))) d_one"
    unfolding quarter_delta fourth_p .
  have "- 1074 \<le> (- 2::int)" "(- 2::int) \<le> 971" "0 < (1::int)" "0 \<le> (0::int)" "(0::int) \<le> 4"
    "0 < (4::int)" "(4::int) + 1 < 2 ^ 53" "4 \<le> INT_MAX * 1"
    by (simp_all add: INT_MAX_def)
  with constant_direction [OF draws q x0(1), of "fl 4 0"] grid quarter_delta p1
  have 5: "\<exists>s. final_state d_zero d_one (fl 4 0) (fl 1 (- 4)) (\<lambda>i. d_half) = Inr s \<and> 1 \<le> w_tic s \<and>
        w_tic s \<le> \<lceil>rval d_one / rval (dsqrt (fl 1 (- 4)))\<rceil>"
    by blast
  have 6: "\<lceil>rval d_one / rval (dsqrt (fl 1 (- 4)))\<rceil> = 4"
    unfolding quarter_delta by (rule fourth_ceiling)
  from in_unit t x0 up down len pos 1 2 3 4 5 6 grid quarter_delta p1 fourth_final show ?thesis
    by blast
qed

text \<open>
  Claim C8. The run is a function of its inputs and of the draws it takes: a second source
  that gives the same draws for as long as the first run lasts leads through the same states to
  the same last state and the same result. Two equal sources do so in particular.
\<close>

theorem random_walk_deterministic:
  assumes "\<forall>i < length (trajectory b a v t_eps runif). runif' i = runif i"
  shows "trajectory b a v t_eps runif' = trajectory b a v t_eps runif \<and>
         final_state b a v t_eps runif' = final_state b a v t_eps runif \<and>
         random_walk b a v t_eps runif' = random_walk b a v t_eps runif"
proof -
  have "walk_trace a (dsqrt t_eps) (dmul d_half (dadd d_one (dmul v (dsqrt t_eps)))) runif'
          \<lparr>w_x = dmul a b, w_tic = 0, w_drawn = 0\<rparr> =
        walk_trace a (dsqrt t_eps) (dmul d_half (dadd d_one (dmul v (dsqrt t_eps)))) runif
          \<lparr>w_x = dmul a b, w_tic = 0, w_drawn = 0\<rparr> \<and>
        walk_loop a (dsqrt t_eps) (dmul d_half (dadd d_one (dmul v (dsqrt t_eps)))) runif'
          \<lparr>w_x = dmul a b, w_tic = 0, w_drawn = 0\<rparr> =
        walk_loop a (dsqrt t_eps) (dmul d_half (dadd d_one (dmul v (dsqrt t_eps)))) runif
          \<lparr>w_x = dmul a b, w_tic = 0, w_drawn = 0\<rparr>"
    using assms by (intro walk_trace_same_draws) (simp add: trajectory_def)
  then show ?thesis
    by (simp add: trajectory_def final_state_def random_walk_final)
qed

theorem random_walk_deterministic_witness:
  "length (trajectory d_half d_one d_zero (fl 1 (- 4)) (\<lambda>i. fl 1 (- 2))) = 2 \<and>
   (if (0::nat) < 2 then fl 1 (- 2) else fl 3 (- 2)) = fl 1 (- 2) \<and>
   (if (1::nat) < 2 then fl 1 (- 2) else fl 3 (- 2)) = fl 1 (- 2) \<and>
   trajectory d_half d_one d_zero (fl 1 (- 4)) (\<lambda>i. if i < 2 then fl 1 (- 2) else fl 3 (- 2)) =
     [\<lparr>w_x = fl 3 (- 2), w_tic = 1, w_drawn = 1\<rparr>, \<lparr>w_x = d_one, w_tic = 2, w_drawn = 2\<rparr>] \<and>
   random_walk d_half d_one d_zero (fl 1 (- 4)) (\<lambda>i. if i < 2 then fl 1 (- 2) else fl 3 (- 2)) =
     Inr \<lparr>choice = 0, time = fl 1 (- 3)\<rparr>"
proof -
  have "\<forall>i < length (trajectory d_half d_one d_zero (fl 1 (- 4)) (\<lambda>i. fl 1 (- 2))).
      (if i < 2 then fl 1 (- 2) else fl 3 (- 2)) = fl 1 (- 2)"
    by (simp add: quarter_trajectory)
  from random_walk_deterministic [OF this] show ?thesis
    by (simp add: quarter_trajectory quarter_run)
qed

text \<open>
  Claim C9 says that a run started strictly inside the interval ends in
  \<open>(-delta, 0]\<close> or in \<open>[a, a + delta)\<close>. From \<open>a = 1\<close>, \<open>b = 2 ^ -1000\<close>, \<open>t_eps = 1\<close>
  a step down computes \<open>2 ^ -1000 - 1\<close>, which rounds to \<open>-1\<close>: the run ends on
  \<open>-delta\<close> itself.
\<close>

theorem overshoot_counterexample:
  "dlt d_zero (dmul d_one (fl 1 (- 1000))) \<and>
   dlt (dmul d_one (fl 1 (- 1000))) d_one \<and>
   final_state (fl 1 (- 1000)) d_one d_zero d_one (\<lambda>i. fl 3 (- 2)) =
     Inr \<lparr>w_x = fl (- 1) 0, w_tic = 1, w_drawn = 1\<rparr> \<and>
   \<not> dlt (dneg (dsqrt d_one)) (fl (- 1) 0) \<and>
   \<not> dle d_one (fl (- 1) 0)"
proof -
  have "dlt d_zero (fl 1 (- 1000))" "dlt (fl 1 (- 1000)) d_one"
    by code_simp+
  moreover have "\<not> dlt (dneg d_one) (fl (- 1) 0)" "\<not> dle d_one (fl (- 1) 0)"
    by code_simp+
  ultimately show ?thesis
    by (simp add: tiny_x0 tiny_final unit_delta)
qed

text \<open>
  Claim C9, amended. For \<open>t_eps > 0\<close>, a run started strictly inside the interval ends in
  \<open>[-delta, 0]\<close> or in \<open>[a, a + delta]\<close>, both closed, the sum \<open>a + delta\<close> being the
  rounded one: the position before the last step was strictly inside, and the last step adds
  or subtracts \<open>delta\<close> with one rounding.
\<close>

theorem overshoot_at_most_one_step:
  assumes "is_double a" "dlt d_zero t_eps"
    and "dlt d_zero (dmul a b)" "dlt (dmul a b) a"
    and "final_state b a v t_eps runif = Inr s"
  shows "dle (dneg (dsqrt t_eps)) (w_x s) \<and> dle (w_x s) d_zero \<or>
         dle a (w_x s) \<and> dle (w_x s) (dadd a (dsqrt t_eps))"
proof -
  let ?d = "dsqrt t_eps" and ?p = "dmul d_half (dadd d_one (dmul v (dsqrt t_eps)))"
  let ?s0 = "\<lparr>w_x = dmul a b, w_tic = 0, w_drawn = 0\<rparr>"
  from assms(5) have loop: "walk_loop a ?d ?p runif ?s0 = Inr s"
    by (simp add: final_state_def)
  from walk_loop_last_step [OF loop] obtain t
    where t: "t = ?s0 \<or> loop_cond a t \<and> is_double (w_x t)" "loop_body ?d ?p runif t = Inr s"
    by blast
  from t(1) assms(3,4) have inside: "is_double (w_x t)" "dlt d_zero (w_x t)" "dlt (w_x t) a"
    by (auto simp: loop_cond_def)
  from assms(2) have d: "is_double ?d" "?d \<noteq> NaN" "0 \<le> rval ?d"
    by (simp_all add: dsqrt_pos_input dsqrt_nonneg)
  from inside have a: "a \<noteq> NaN"
    by (auto dest: dlt_not_NaN)
  from loop have out: "\<not> (dlt (w_x s) a \<and> dlt d_zero (w_x s))"
    by (auto dest: walk_loop_exit simp: loop_cond_def)
  show ?thesis
  proof (cases "dlt (runif (w_drawn t)) ?p")
    case True
    with t(2) have x: "w_x s = dadd (w_x t) ?d"
      by (auto simp: loop_body_Inr)
    note up = step_up_from_inside [OF assms(1) inside d]
    from out up(2) x have "\<not> dlt (w_x s) a" by simp
    with up(1) a x have "dle a (w_x s)"
      by (simp add: dle_def)
    with up(3) x show ?thesis by simp
  next
    case False
    with t(2) have x: "w_x s = dsub (w_x t) ?d"
      by (auto simp: loop_body_Inr)
    note down = step_down_from_inside [OF assms(1) inside d]
    from out down(2) x have "\<not> dlt d_zero (w_x s)" by simp
    with down(1) x have "dle (w_x s) d_zero"
      by (simp add: dle_def d_zero_def)
    with down(3) x show ?thesis by simp
  qed
qed

theorem overshoot_at_most_one_step_witness:
  "is_double d_one \<and> dlt d_zero (fl 1 (- 4)) \<and>
   dlt d_zero (dmul d_one d_half) \<and> dlt (dmul d_one d_half) d_one \<and>
   final_state d_half d_one d_zero (fl 1 (- 4)) (\<lambda>i. fl 1 (- 2)) =
     Inr \<lparr>w_x = d_one, w_tic = 2, w_drawn = 2\<rparr> \<and>
   dle d_one d_one \<and> dle d_one (dadd d_one (dsqrt (fl 1 (- 4)))) \<and>
   \<not> dle d_one d_zero"
proof -
  have 1: "dlt d_zero (fl 1 (- 4))"
    by code_simp
  have 2: "dlt d_zero (dmul d_one d_half)" "dlt (dmul d_one d_half) d_one"
    unfolding quarter_x0 by code_simp+
  have 3: "\<not> dle d_one d_zero"
    by code_simp
  from overshoot_at_most_one_step [OF is_double_d_one(1) 1 2 quarter_final] 3
  have "dle d_one d_one \<and> dle d_one (dadd d_one (dsqrt (fl 1 (- 4))))"
    by simp
  with 1 2 3 quarter_final is_double_d_one(1) show ?thesis
    by simp
qed

text \<open>
  Claim C10 says that a start above \<open>a + delta\<close> returns choice 1 after one iteration, and a
  start below \<open>-delta\<close> choice 0. The first run above ends on \<open>a\<close> itself, with choice 0;
  the second, with the negative barrier \<open>a = -4\<close>, ends at \<open>-1\<close>, above \<open>a\<close>, with choice 1.
\<close>

theorem start_outside_counterexample:
  "dlt (dadd (fl 1 53) (dsqrt d_one)) (dmul (fl 1 53) (fl 4503599627370497 (- 52))) \<and>
   random_walk (fl 4503599627370497 (- 52)) (fl 1 53) d_zero d_one (\<lambda>i. fl 3 (- 2)) =
     Inr \<lparr>choice = 0, time = d_one\<rparr> \<and>
   dlt (dmul (fl (- 4) 0) d_half) (dneg (dsqrt d_one)) \<and>
   random_walk d_half (fl (- 4) 0) d_zero d_one (\<lambda>i. fl 1 (- 2)) =
     Inr \<lparr>choice = 1, time = d_one\<rparr>"
  by (simp add: unit_delta tie_x0 tie_above tie_run negative_x0 negative_below negative_run)

text \<open>
  Claim C10, amended. There is no range check. A start above the rounded sum \<open>a + delta\<close> makes
  one iteration and returns \<open>time = t_eps\<close> with the last position at least \<open>a\<close>: choice 1 when
  it is above \<open>a\<close>, as it is after a step up, and choice 0 when a step down rounds to \<open>a\<close>.
  A start below \<open>-delta\<close> with \<open>a \<ge> 0\<close> makes one iteration and returns choice 0 and
  \<open>time = t_eps\<close>.
\<close>

theorem start_outside_one_step:
  assumes "is_double a" "is_double t_eps"
  shows "(dlt (dadd a (dsqrt t_eps)) (dmul a b) \<longrightarrow>
            (\<exists>s. final_state b a v t_eps runif = Inr s \<and> w_tic s = 1 \<and> dle a (w_x s) \<and>
                 random_walk b a v t_eps runif =
                   Inr \<lparr>choice = (if dlt a (w_x s) then 1 else 0), time = t_eps\<rparr> \<and>
                 (dlt (runif 0) (dmul d_half (dadd d_one (dmul v (dsqrt t_eps)))) \<longrightarrow>
                    dlt a (w_x s)))) \<and>
         (dlt (dmul a b) (dneg (dsqrt t_eps)) \<and> dle d_zero a \<longrightarrow>
            (\<exists>s. final_state b a v t_eps runif = Inr s \<and> w_tic s = 1 \<and>
                 random_walk b a v t_eps runif = Inr \<lparr>choice = 0, time = t_eps\<rparr>))"
proof (intro conjI impI)
  let ?d = "dsqrt t_eps" and ?p = "dmul d_half (dadd d_one (dmul v (dsqrt t_eps)))"
  let ?x0 = "dmul a b"
  let ?s1 = "\<lparr>w_x = (if dlt (runif 0) ?p then dadd ?x0 ?d else dsub ?x0 ?d), w_tic = 1, w_drawn = 1\<rparr>"
  have d: "is_double ?d" "0 \<le> rval ?d"
    by (simp_all add: dsqrt_nonneg)
  have stop: "final_state b a v t_eps runif = Inr ?s1" if "\<not> loop_cond a ?s1"
    unfolding final_state_def using first_step that by (rule walk_loop_stop)
  have run: "random_walk b a v t_eps runif =
      Inr \<lparr>choice = (if dlt a (w_x ?s1) then 1 else 0), time = t_eps\<rparr>" if "\<not> loop_cond a ?s1"
    using stop [OF that] assms(2) by (simp add: random_walk_final report_one)
  {
    assume above: "dlt (dadd a ?d) ?x0"
    note st = step_from_above [OF assms(1) is_double_dmul above d]
    from above have a: "a \<noteq> NaN"
      by (auto dest!: dlt_not_NaN simp: dadd_NaN_iff)
    have ge: "dle a (w_x ?s1)"
      using st a by (auto simp: dle_def dest: dlt_asym dlt_not_NaN)
    then have out: "\<not> loop_cond a ?s1"
      by (simp add: loop_cond_def dle_def)
    have "dlt (runif 0) ?p \<longrightarrow> dlt a (w_x ?s1)"
      using st(1) by simp
    with stop [OF out] run [OF out] ge
    show "\<exists>s. final_state b a v t_eps runif = Inr s \<and> w_tic s = 1 \<and> dle a (w_x s) \<and>
              random_walk b a v t_eps runif =
                Inr \<lparr>choice = (if dlt a (w_x s) then 1 else 0), time = t_eps\<rparr> \<and>
              (dlt (runif 0) ?p \<longrightarrow> dlt a (w_x s))"
      by (intro exI [of _ ?s1]) simp
  }
  {
    assume "dlt ?x0 (dneg ?d) \<and> dle d_zero a"
    then have below: "dlt ?x0 (dneg ?d)" and a: "dle d_zero a"
      by simp_all
    note st = step_from_below [OF is_double_dmul below d]
    from st have x1: "w_x ?s1 \<noteq> NaN" "dle (w_x ?s1) d_zero"
      by simp_all
    then have out: "\<not> loop_cond a ?s1"
      by (simp add: loop_cond_def dle_def)
    from a have "a \<noteq> NaN" "0 \<le> rval a"
      using dle_rval [of d_zero a] assms(1) by (simp_all add: dle_def is_double_d_one)
    moreover from x1 have "rval (w_x ?s1) \<le> 0"
      using dle_rval [of "w_x ?s1" d_zero] by (simp add: is_double_d_one split: if_splits)
    ultimately have "\<not> dlt a (w_x ?s1)"
      using dlt_rval [of a "w_x ?s1"] assms(1) x1(1) by (simp split: if_splits)
    with stop [OF out] run [OF out]
    show "\<exists>s. final_state b a v t_eps runif = Inr s \<and> w_tic s = 1 \<and>
              random_walk b a v t_eps runif = Inr \<lparr>choice = 0, time = t_eps\<rparr>"
      by (intro exI [of _ ?s1]) simp
  }
qed

theorem start_outside_one_step_witness:
  "is_double (fl 1 53) \<and> is_double d_one \<and>
   dlt (dadd (fl 1 53) (dsqrt d_one)) (dmul (fl 1 53) (fl 4503599627370497 (- 52))) \<and>
   final_state (fl 4503599627370497 (- 52)) (fl 1 53) d_zero d_one (\<lambda>i. fl 3 (- 2)) =
     Inr \<lparr>w_x = fl 1 53, w_tic = 1, w_drawn = 1\<rparr> \<and>
   dle (fl 1 53) (fl 1 53) \<and>
   is_double (fl 4 0) \<and> dle d_zero (fl 4 0) \<and>
   dlt (dmul (fl 4 0) (fl (- 1) (- 1))) (dneg (dsqrt d_one)) \<and>
   random_walk (fl (- 1) (- 1)) (fl 4 0) d_zero d_one (\<lambda>i. fl 1 (- 2)) =
     Inr \<lparr>choice = 0, time = d_one\<rparr>"
proof -
  have d: "is_double (fl 1 53)" "is_double d_one" "is_double (fl 4 0)"
    by (simp_all add: fl_facts is_double_d_one)
  have above: "dlt (dadd (fl 1 53) (dsqrt d_one)) (dmul (fl 1 53) (fl 4503599627370497 (- 52)))"
    by (simp add: unit_delta tie_x0 tie_above)
  from start_outside_one_step [OF d(1,2), of "fl 4503599627370497 (- 52)" d_zero "\<lambda>i. fl 3 (- 2)"] above
  have 1: "dle (fl 1 53) (fl 1 53)"
    by (simp add: tie_final)
  have below: "dlt (dmul (fl 4 0) (fl (- 1) (- 1))) (dneg (dsqrt d_one))"
    by (simp add: unit_delta positive_x0 negative_below)
  have pos: "dle d_zero (fl 4 0)"
    by code_simp
  from start_outside_one_step [OF d(3,2), of "fl (- 1) (- 1)" d_zero "\<lambda>i. fl 1 (- 2)"] below pos
  have 2: "random_walk (fl (- 1) (- 1)) (fl 4 0) d_zero d_one (\<lambda>i. fl 1 (- 2)) =
      Inr \<lparr>choice = 0, time = d_one\<rparr>"
    by blast
  from d above tie_final 1 pos below 2 show ?thesis
    by simp
qed

end
